theory Spec2Isabelle
  imports Complex_Main "HOL-Library.Word" "HOL-Library.Multiset"
begin

section \<open>Strings\<close>

text \<open>
  A JavaScript string is the sequence of its UTF-16 code units, each a number below
  65536; nothing below depends on that bound. \<open>js\<close> writes a string of code units below
  256 as an ordinary literal.
\<close>

type_synonym jschar = nat
type_synonym jsstring = "jschar list"

definition js :: "string \<Rightarrow> jsstring" where
  "js s = map of_char s"

text \<open>
  \<open>Array.prototype.slice\<close> and \<open>String.prototype.slice\<close>: a negative index counts
  from the end, both indices are clamped to the length, and an empty range gives the
  empty sequence.
\<close>

definition js_slice :: "'a list \<Rightarrow> int \<Rightarrow> int \<Rightarrow> 'a list" where
  "js_slice xs start end =
     (let len = int (length xs);
          from = (if start < 0 then max (len + start) 0 else min start len);
          to = (if end < 0 then max (len + end) 0 else min end len)
      in take (nat (to - from)) (drop (nat from) xs))"

section \<open>Numbers\<close>

text \<open>
  A JavaScript number is an IEEE 754 double: not-a-number, an infinity, or a finite value.
  The two zeros are one value here; no operation below tells them apart. \<open>quanta\<close> lists
  the spacings of the finite doubles, from \<open>2^-1074\<close> (subnormals and the first binade) to
  \<open>2^971\<close> (the last binade), and \<open>ulp a\<close> is the spacing at magnitude \<open>a\<close>, if \<open>a\<close> is
  below \<open>2^1024\<close>. \<open>fl\<close> rounds a real to the nearest double, ties to the even
  significand, and to an infinity from \<open>2^1024 - 2^970\<close> on; every arithmetic operation
  of the language returns the exact result rounded this way.
\<close>

datatype number = NaN | PosInf | NegInf | Num real

definition quanta :: "real list" where
  "quanta = map (\<lambda>k. 2 powi (int k - 1074)) [0..<2046]"

definition ulp :: "real \<Rightarrow> real option" where
  "ulp a = find (\<lambda>q. a < q * 2 ^ 53) quanta"

definition rne :: "real \<Rightarrow> int" where
  "rne y = (let f = \<lfloor>y\<rfloor>; d = y - of_int f
            in if d < 1 / 2 then f else if 1 / 2 < d then f + 1 else if even f then f else f + 1)"

definition signed_infinity :: "bool \<Rightarrow> number" where
  "signed_infinity neg = (if neg then NegInf else PosInf)"

definition fl :: "real \<Rightarrow> number" where
  "fl x = (case ulp \<bar>x\<bar> of
             None \<Rightarrow> signed_infinity (x < 0)
           | Some q \<Rightarrow>
               (let y = q * of_int (rne (x / q))
                in if 2 ^ 1024 \<le> \<bar>y\<bar> then signed_infinity (x < 0) else Num y))"

fun negative :: "number \<Rightarrow> bool" where
  "negative NegInf = True"
| "negative (Num x) = (x < 0)"
| "negative _ = False"

text \<open>The operators \<open>*\<close> and \<open>+\<close> on numbers.\<close>

fun num_mul :: "number \<Rightarrow> number \<Rightarrow> number" where
  "num_mul NaN _ = NaN"
| "num_mul _ NaN = NaN"
| "num_mul (Num x) (Num y) = fl (x * y)"
| "num_mul a b = (if a = Num 0 \<or> b = Num 0 then NaN else signed_infinity (negative a \<noteq> negative b))"

fun num_add :: "number \<Rightarrow> number \<Rightarrow> number" where
  "num_add NaN _ = NaN"
| "num_add _ NaN = NaN"
| "num_add (Num x) (Num y) = fl (x + y)"
| "num_add (Num x) b = b"
| "num_add a (Num y) = a"
| "num_add a b = (if a = b then a else NaN)"

text \<open>
  \<open>Math.pow(2, n)\<close> for an integer \<open>n\<close> (a power of two is a double, or too large, or too
  small), and \<open>Math.round\<close>, which rounds halves up.
\<close>

definition Math_pow2 :: "int \<Rightarrow> number" where
  "Math_pow2 n = fl (2 powi n)"

fun Math_round :: "number \<Rightarrow> number" where
  "Math_round (Num x) = Num (of_int \<lfloor>x + 1 / 2\<rfloor>)"
| "Math_round n = n"


section \<open>Errors and the outside world\<close>

text \<open>Every value the program throws or receives as a rejection.\<close>

datatype error =
    Undefined
  | TypeError
  | HttpStatus int
  | NotHtml jsstring
  | InvalidVector nat
  | InvalidScrapeUrl
  | External string

record metadata =
  md_url :: jsstring
  md_title :: jsstring
  md_chunk :: nat
  md_text :: jsstring

record vector =
  vec_id :: jsstring
  vec_values :: "real list"
  vec_metadata :: metadata

text \<open>
  The calls that leave the process, in the order they are made. \<open>'x\<close> is the state of
  the external collaborators (network, browser, embedding provider, vector store, random
  number generator); the program reaches it only through the oracles passed to it.
\<close>

datatype event =
    Slept number
  | HttpGet jsstring
  | BrowserLoad jsstring
  | EmbedCall "jsstring list"
  | UpsertCall "jsstring option" "vector list"
  | OpCall

record 'x world =
  ext :: 'x
  trace :: "event list"

definition perform :: "event \<Rightarrow> ('x \<Rightarrow> 'r \<times> 'x) \<Rightarrow> 'x world \<Rightarrow> 'r \<times> 'x world" where
  "perform ev f w = (case f (ext w) of (r, x') \<Rightarrow> (r, w\<lparr>ext := x', trace := trace w @ [ev]\<rparr>))"

definition sleep :: "number \<Rightarrow> 'x world \<Rightarrow> 'x world" where
  "sleep ms w = w\<lparr>trace := trace w @ [Slept ms]\<rparr>"

definition calls :: "event \<Rightarrow> 'x world \<Rightarrow> nat" where
  "calls ev w = count_list (trace w) ev"

definition slept :: "'x world \<Rightarrow> number list" where
  "slept w = concat (map (\<lambda>e. case e of Slept ms \<Rightarrow> [ms] | _ \<Rightarrow> []) (trace w))"


section \<open>utilities.js: withRetry\<close>

text \<open>
  The options object of \<open>withRetry\<close>; \<open>None\<close> is a property left undefined, which the
  destructuring pattern replaces by its default.
\<close>

record 'x retry_opts =
  tries :: "int option"
  baseDelayMs :: "number option"
  jitter :: "bool option"
  onRetry :: "(int \<Rightarrow> error \<Rightarrow> number \<Rightarrow> 'x \<Rightarrow> 'x) option"

definition no_opts :: "'x retry_opts" where
  "no_opts = \<lparr>tries = None, baseDelayMs = None, jitter = None, onRetry = None\<rparr>"

definition default_tries :: int where
  "default_tries = 3"

definition default_baseDelayMs :: number where
  "default_baseDelayMs = Num 250"

definition default_jitter :: bool where
  "default_jitter = True"

text \<open>
  The body of the \<open>if (attempt < tries)\<close> block: compute the backoff, scale it by the
  jitter factor when jitter is on (one draw of \<open>Math.random\<close>, a finite number), tell
  \<open>onRetry\<close> (whose own exceptions are swallowed), and sleep for the rounded delay. The
  literals \<open>0.8\<close> and \<open>0.4\<close> denote the doubles nearest to them.
\<close>

definition retry_delay :: "('x \<Rightarrow> real \<times> 'x) \<Rightarrow> number \<Rightarrow> bool \<Rightarrow> int \<Rightarrow> 'x world \<Rightarrow> number \<times> 'x world" where
  "retry_delay random b j attempt w =
     (let backoff = num_mul b (Math_pow2 (attempt - 1))
      in if j then (case random (ext w) of (r, x') \<Rightarrow>
                      (num_mul backoff (num_add (fl 0.8) (num_mul (Num r) (fl 0.4))), w\<lparr>ext := x'\<rparr>))
         else (backoff, w))"

definition retry_pause ::
  "('x \<Rightarrow> real \<times> 'x) \<Rightarrow> number \<Rightarrow> bool \<Rightarrow> (int \<Rightarrow> error \<Rightarrow> number \<Rightarrow> 'x \<Rightarrow> 'x) option \<Rightarrow>
   int \<Rightarrow> error \<Rightarrow> 'x world \<Rightarrow> 'x world" where
  "retry_pause random b j cb attempt err w =
     (case retry_delay random b j attempt w of (delay, w1) \<Rightarrow>
        sleep (Math_round delay)
          (case cb of None \<Rightarrow> w1 | Some f \<Rightarrow> w1\<lparr>ext := f attempt err delay (ext w1)\<rparr>))"

function withRetry_loop ::
  "('x \<Rightarrow> real \<times> 'x) \<Rightarrow> ('x world \<Rightarrow> (error + 'a) \<times> 'x world) \<Rightarrow> int \<Rightarrow> number \<Rightarrow> bool \<Rightarrow>
   (int \<Rightarrow> error \<Rightarrow> number \<Rightarrow> 'x \<Rightarrow> 'x) option \<Rightarrow> int \<Rightarrow> error \<Rightarrow> 'x world \<Rightarrow> (error + 'a) \<times> 'x world" where
  "withRetry_loop random fn t b j cb attempt lastErr w =
     (if attempt \<le> t then
        (case fn w of
           (Inr v, w1) \<Rightarrow> (Inr v, w1)
         | (Inl err, w1) \<Rightarrow>
             withRetry_loop random fn t b j cb (attempt + 1) err
               (if attempt < t then retry_pause random b j cb attempt err w1 else w1))
      else (Inl lastErr, w))"
  by pat_completeness auto
termination
  by (relation "measure (\<lambda>(random, fn, t, b, j, cb, attempt, lastErr, w). nat (t + 1 - attempt))") auto

declare withRetry_loop.simps [simp del]

definition withRetry ::
  "('x \<Rightarrow> real \<times> 'x) \<Rightarrow> ('x world \<Rightarrow> (error + 'a) \<times> 'x world) \<Rightarrow> 'x retry_opts \<Rightarrow> 'x world \<Rightarrow>
   (error + 'a) \<times> 'x world" where
  "withRetry random fn opts w =
     withRetry_loop random fn
       (case tries opts of None \<Rightarrow> default_tries | Some t \<Rightarrow> t)
       (case baseDelayMs opts of None \<Rightarrow> default_baseDelayMs | Some b \<Rightarrow> b)
       (case jitter opts of None \<Rightarrow> default_jitter | Some j \<Rightarrow> j)
       (onRetry opts) 1 Undefined w"

section \<open>The platform: URL objects and external collaborators\<close>

text \<open>
  A URL record as the URL standard defines it; \<open>new URL\<close> produces one, the accessors
  below read and update it. A path is either opaque (\<open>mailto:\<close> and the like) or a list
  of segments.
\<close>

datatype url_path = Opaque jsstring | Segments "jsstring list"

record url =
  scheme :: jsstring
  username :: jsstring
  password :: jsstring
  host :: "jsstring option"
  port :: "nat option"
  path :: url_path
  query :: "jsstring option"
  fragment :: "jsstring option"

text \<open>What \<open>fetch\<close> resolves to, and what the headless browser shows after navigation.\<close>

record response =
  res_ok :: bool
  res_status :: int
  res_content_type :: "jsstring option"
  res_text :: "error + jsstring"

record rendered =
  innerText :: jsstring
  content :: "error + jsstring"

text \<open>
  The library and service calls the program makes, none of which is part of the
  repository. Calls with an effect take and return the external state; the parsers of
  the URL standard and of the HTML library are pure. \<open>new_URL s = None\<close> is the
  \<open>TypeError\<close> that \<open>new URL(s)\<close> throws.
\<close>

record 'x platform =
  math_random :: "'x \<Rightarrow> real \<times> 'x"
  date_now :: "'x \<Rightarrow> int \<times> 'x"
  fetch :: "jsstring \<Rightarrow> 'x \<Rightarrow> (error + response) \<times> 'x"
  render_page :: "jsstring \<Rightarrow> 'x \<Rightarrow> (error + rendered) \<times> 'x"
  embeddings_create :: "jsstring list \<Rightarrow> 'x \<Rightarrow> (error + real list list) \<times> 'x"
  index_upsert :: "jsstring option \<Rightarrow> vector list \<Rightarrow> 'x \<Rightarrow> (error + unit) \<times> 'x"
  new_URL :: "jsstring \<Rightarrow> url option"
  new_URL_base :: "jsstring \<Rightarrow> jsstring \<Rightarrow> url option"
  parse_path :: "jsstring \<Rightarrow> jsstring \<Rightarrow> jsstring list"
  parse_query :: "jsstring \<Rightarrow> (jsstring \<times> jsstring) list"
  serialize_query :: "(jsstring \<times> jsstring) list \<Rightarrow> jsstring"
  cheerio_anchors :: "jsstring \<Rightarrow> jsstring list"
  cheerio_title :: "jsstring \<Rightarrow> jsstring"
  PINECONE_NAMESPACE :: "jsstring option"

text \<open>
  A property of a request: a string, absent, or something else. A numeric property is
  read through \<open>Number(val)\<close>, which is either a finite number or not; \<open>None\<close> is a
  property that is absent.
\<close>

datatype numeric = NotFinite | Finite real

datatype field = Absent | Str jsstring | Other

section \<open>utilities.js: chunk\<close>

text \<open>
  The loop of \<open>chunk\<close> advances its index by \<open>size\<close>; with a size that is not
  positive it never leaves a non-empty array, so the result is an option and \<open>None\<close>
  is a call that does not return.
\<close>

partial_function (option) chunk_loop :: "'a list \<Rightarrow> int \<Rightarrow> int \<Rightarrow> 'a list list \<Rightarrow> 'a list list option" where
  "chunk_loop arr sz i out =
     (if i < int (length arr)
      then chunk_loop arr sz (i + sz) (out @ [js_slice arr i (i + sz)])
      else Some out)"

declare chunk_loop.simps [code]

definition chunk :: "'a list \<Rightarrow> int \<Rightarrow> 'a list list option" where
  "chunk arr sz = chunk_loop arr sz 0 []"


section \<open>pinecone.js: upsertVectors\<close>

text \<open>
  An index handle is the namespace it is bound to; \<open>None\<close> is the base index, which
  writes to the default namespace.
\<close>

definition getIndexForNamespace :: "'x platform \<Rightarrow> jsstring option \<Rightarrow> jsstring option" where
  "getIndexForNamespace P ns =
     (case (case ns of None \<Rightarrow> PINECONE_NAMESPACE P | Some n \<Rightarrow> Some n) of
        None \<Rightarrow> None
      | Some n \<Rightarrow> if n = [] then None else Some n)"

fun validate_vectors :: "nat \<Rightarrow> vector list \<Rightarrow> error option" where
  "validate_vectors i [] = None"
| "validate_vectors i (v # vs) =
     (if vec_id v = [] \<or> vec_values v = [] then Some (InvalidVector i)
      else validate_vectors (Suc i) vs)"

abbreviation upsert_opts :: "'x retry_opts" where
  "upsert_opts \<equiv> \<lparr>tries = Some 3, baseDelayMs = Some (Num 300), jitter = None, onRetry = None\<rparr>"

fun upsert_batches ::
  "'x platform \<Rightarrow> jsstring option \<Rightarrow> vector list list \<Rightarrow> int \<Rightarrow> 'x world \<Rightarrow> (error + int) \<times> 'x world" where
  "upsert_batches P index [] tot w = (Inr tot, w)"
| "upsert_batches P index (batch # rest) tot w =
     (case withRetry (math_random P) (perform (UpsertCall index batch) (index_upsert P index batch))
             upsert_opts w of
        (Inl e, w1) \<Rightarrow> (Inl e, w1)
      | (Inr u, w1) \<Rightarrow> upsert_batches P index rest (tot + int (length batch)) w1)"

text \<open>The returned object has the one field \<open>upsertedCount\<close>; the model returns its value.\<close>

definition upsertVectors ::
  "'x platform \<Rightarrow> vector list \<Rightarrow> jsstring option \<Rightarrow> 'x world \<Rightarrow> ((error + int) \<times> 'x world) option" where
  "upsertVectors P vectors namespace w =
     (if vectors = [] then Some (Inr 0, w)
      else case validate_vectors 0 vectors of
        Some e \<Rightarrow> Some (Inl e, w)
      | None \<Rightarrow>
          (case chunk vectors 100 of
             None \<Rightarrow> None
           | Some batches \<Rightarrow> Some (upsert_batches P (getIndexForNamespace P namespace) batches 0 w)))"

section \<open>chunk.js: chunkText\<close>

text \<open>
  The code units that \<open>String.prototype.trim\<close> strips and that \<open>\s\<close> matches: the
  white space and line terminator code points of ECMAScript, all of them in the basic
  plane.
\<close>

definition is_ws :: "jschar \<Rightarrow> bool" where
  "is_ws c = (c = 0x09 \<or> c = 0x0A \<or> c = 0x0B \<or> c = 0x0C \<or> c = 0x0D \<or> c = 0x20 \<or> c = 0xA0 \<or>
              c = 0x1680 \<or> (0x2000 \<le> c \<and> c \<le> 0x200A) \<or> c = 0x2028 \<or> c = 0x2029 \<or>
              c = 0x202F \<or> c = 0x205F \<or> c = 0x3000 \<or> c = 0xFEFF)"

definition trim :: "jsstring \<Rightarrow> jsstring" where
  "trim s = rev (dropWhile is_ws (rev (dropWhile is_ws s)))"

text \<open>
  The loop of \<open>chunkText\<close> advances by \<open>maxChars - overlap\<close>, which the function does
  not check to be positive: \<open>None\<close> is a call that does not return.
\<close>

partial_function (option) chunkText_loop ::
  "jsstring \<Rightarrow> int \<Rightarrow> int \<Rightarrow> int \<Rightarrow> jsstring list \<Rightarrow> jsstring list option" where
  "chunkText_loop text maxChars overlap i chunks =
     (if i < int (length text)
      then chunkText_loop text maxChars overlap (i + (maxChars - overlap))
             (if trim (js_slice text i (i + maxChars)) \<noteq> []
              then chunks @ [trim (js_slice text i (i + maxChars))] else chunks)
      else Some chunks)"

declare chunkText_loop.simps [code]

definition chunkText :: "jsstring \<Rightarrow> int \<Rightarrow> int \<Rightarrow> jsstring list option" where
  "chunkText text maxChars overlap = chunkText_loop text maxChars overlap 0 []"

section \<open>URL objects\<close>

text \<open>Decimal digits of a number, as template literals and the URL serializer print it.\<close>

fun decimal :: "nat \<Rightarrow> jsstring" where
  "decimal n = (if n < 10 then [48 + n]
                else decimal (n div 10) @ [48 + n mod 10])"

declare decimal.simps [simp del]

definition show_int :: "int \<Rightarrow> jsstring" where
  "show_int i = (if i < 0 then js ''-'' @ decimal (nat (- i)) else decimal (nat i))"

definition startsWith :: "jsstring \<Rightarrow> jsstring \<Rightarrow> bool" where
  "startsWith s p = (take (length p) s = p)"

definition endsWith :: "jsstring \<Rightarrow> jsstring \<Rightarrow> bool" where
  "endsWith s p = (length p \<le> length s \<and> drop (length s - length p) s = p)"

text \<open>\<open>s.split(d)\<close> for a separator of one code unit.\<close>

fun split_on :: "jschar \<Rightarrow> jsstring \<Rightarrow> jsstring list" where
  "split_on d [] = [[]]"
| "split_on d (c # cs) =
     (if c = d then [] # split_on d cs
      else (case split_on d cs of x # xs \<Rightarrow> (c # x) # xs | [] \<Rightarrow> [[c]]))"

text \<open>The getters and setters of the URL standard that the program uses.\<close>

definition serialize_path :: "url_path \<Rightarrow> jsstring" where
  "serialize_path p = (case p of Opaque s \<Rightarrow> s | Segments segs \<Rightarrow> concat (map (\<lambda>s. js ''/'' @ s) segs))"

definition url_protocol :: "url \<Rightarrow> jsstring" where
  "url_protocol u = scheme u @ js '':''"

definition url_pathname :: "url \<Rightarrow> jsstring" where
  "url_pathname u = serialize_path (path u)"

definition url_hostname :: "url \<Rightarrow> jsstring" where
  "url_hostname u = (case host u of None \<Rightarrow> [] | Some h \<Rightarrow> h)"

definition url_authority :: "url \<Rightarrow> jsstring" where
  "url_authority u =
     (case host u of
        None \<Rightarrow> []
      | Some h \<Rightarrow> h @ (case port u of None \<Rightarrow> [] | Some p \<Rightarrow> js '':'' @ decimal p))"

definition url_href :: "url \<Rightarrow> jsstring" where
  "url_href u =
     scheme u @ js '':'' @
     (case host u of
        Some h \<Rightarrow>
          js ''//'' @
          (if username u \<noteq> [] \<or> password u \<noteq> []
           then username u @ (if password u \<noteq> [] then js '':'' @ password u else []) @ js ''@''
           else []) @
          url_authority u
      | None \<Rightarrow>
          (case path u of
             Segments (s # t # r) \<Rightarrow> if s = [] then js ''/.'' else []
           | _ \<Rightarrow> [])) @
     serialize_path (path u) @
     (case query u of None \<Rightarrow> [] | Some q \<Rightarrow> js ''?'' @ q) @
     (case fragment u of None \<Rightarrow> [] | Some f \<Rightarrow> js ''#'' @ f)"

text \<open>
  The origin of an address with one of the schemes below is its scheme, host and port;
  the program reads \<open>origin\<close> of HTTP(S) addresses only.
\<close>

definition url_origin :: "url \<Rightarrow> jsstring" where
  "url_origin u =
     (if scheme u \<in> {js ''http'', js ''https'', js ''ftp'', js ''ws'', js ''wss''}
      then scheme u @ js ''://'' @ url_authority u
      else js ''null'')"

definition strip_trailing_spaces :: "url \<Rightarrow> url" where
  "strip_trailing_spaces u =
     (case path u of
        Opaque s \<Rightarrow>
          if fragment u = None \<and> query u = None
          then u\<lparr>path := Opaque (rev (dropWhile (\<lambda>c. c = 0x20) (rev s)))\<rparr> else u
      | Segments segs \<Rightarrow> u)"

text \<open>\<open>url.hash = ""\<close>.\<close>

definition clear_hash :: "url \<Rightarrow> url" where
  "clear_hash u = strip_trailing_spaces (u\<lparr>fragment := None\<rparr>)"

text \<open>
  \<open>url.searchParams\<close> is a list of name-value pairs, read from the query when the URL
  object is made; \<open>delete\<close> removes every pair of a name and writes the list back.
\<close>

definition searchParams :: "'x platform \<Rightarrow> url \<Rightarrow> (jsstring \<times> jsstring) list" where
  "searchParams P u = parse_query P (case query u of None \<Rightarrow> [] | Some q \<Rightarrow> q)"

definition searchParams_update :: "'x platform \<Rightarrow> (jsstring \<times> jsstring) list \<Rightarrow> url \<Rightarrow> url" where
  "searchParams_update P params u =
     (if serialize_query P params = [] then strip_trailing_spaces (u\<lparr>query := None\<rparr>)
      else u\<lparr>query := Some (serialize_query P params)\<rparr>)"

definition searchParams_delete ::
  "'x platform \<Rightarrow> jsstring \<Rightarrow> url \<times> (jsstring \<times> jsstring) list \<Rightarrow> url \<times> (jsstring \<times> jsstring) list" where
  "searchParams_delete P k obj =
     (case obj of (u, params) \<Rightarrow>
        (searchParams_update P (filter (\<lambda>kv. fst kv \<noteq> k) params) u, filter (\<lambda>kv. fst kv \<noteq> k) params))"

text \<open>\<open>url.pathname = value\<close>: nothing on an opaque path, else the path is parsed anew.\<close>

definition set_pathname :: "'x platform \<Rightarrow> jsstring \<Rightarrow> url \<Rightarrow> url" where
  "set_pathname P v u =
     (case path u of
        Opaque s \<Rightarrow> u
      | Segments segs \<Rightarrow> u\<lparr>path := Segments (parse_path P (scheme u) v)\<rparr>)"


section \<open>utilities.js: isHttpUrl and cleanUrl\<close>

definition isHttpUrl :: "'x platform \<Rightarrow> jsstring \<Rightarrow> bool" where
  "isHttpUrl P str =
     (case new_URL P str of
        None \<Rightarrow> False
      | Some u \<Rightarrow> url_protocol u = js ''http:'' \<or> url_protocol u = js ''https:'')"

definition DEFAULT_STRIP_PARAMS :: "jsstring set" where
  "DEFAULT_STRIP_PARAMS =
     {js ''utm_source'', js ''utm_medium'', js ''utm_campaign'', js ''utm_term'', js ''utm_content'',
      js ''gclid'', js ''fbclid''}"

text \<open>\<open>s.replace(/\/+$/, "/")\<close>: a run of slashes at the end becomes one slash.\<close>

definition replace_trailing_slashes :: "jsstring \<Rightarrow> jsstring" where
  "replace_trailing_slashes s =
     (if endsWith s (js ''/'') then rev (dropWhile (\<lambda>c. c = 0x2F) (rev s)) @ js ''/'' else s)"

text \<open>
  The three updates \<open>cleanUrl\<close> makes to the URL object: the hash, the tracking
  parameters (for each key the object had, in order), the trailing slashes.
\<close>

definition strip_params :: "'x platform \<Rightarrow> jsstring set \<Rightarrow> url \<Rightarrow> (jsstring \<times> jsstring) list \<Rightarrow> url" where
  "strip_params P stripParams u params =
     (if stripParams \<noteq> {}
      then fst (fold (\<lambda>k obj. if k \<in> stripParams then searchParams_delete P k obj else obj)
                  (map fst params) (u, params))
      else u)"

definition collapse_slashes :: "'x platform \<Rightarrow> url \<Rightarrow> url" where
  "collapse_slashes P u =
     (if url_pathname u \<noteq> js ''/'' \<and> endsWith (url_pathname u) (js ''/'')
      then set_pathname P (replace_trailing_slashes (url_pathname u)) u
      else u)"

definition clean_URL :: "'x platform \<Rightarrow> jsstring set \<Rightarrow> url \<Rightarrow> url" where
  "clean_URL P stripParams u =
     collapse_slashes P (strip_params P stripParams (clear_hash u) (searchParams P u))"

definition cleanUrl :: "'x platform \<Rightarrow> jsstring \<Rightarrow> jsstring set \<Rightarrow> error + jsstring" where
  "cleanUrl P u stripParams =
     (case new_URL P u of
        None \<Rightarrow> Inl TypeError
      | Some url \<Rightarrow> Inr (url_href (clean_URL P stripParams url)))"

section \<open>utilities.js: cleanText\<close>

text \<open>
  The regular expressions of \<open>cleanText\<close>, each a left-to-right scan. Letters match
  without regard to case, which for these patterns concerns ASCII letters only.
\<close>

definition ascii_lower :: "jschar \<Rightarrow> jschar" where
  "ascii_lower c = (if 0x41 \<le> c \<and> c \<le> 0x5A then c + 0x20 else c)"

definition starts_with_ci :: "jsstring \<Rightarrow> jsstring \<Rightarrow> bool" where
  "starts_with_ci p s = (length p \<le> length s \<and> map ascii_lower (take (length p) s) = map ascii_lower p)"

text \<open>
  \<open>match_end p s\<close>: the number of code units of \<open>s\<close> up to the end of the first
  occurrence of \<open>p\<close>, if there is one.
\<close>

fun match_end :: "jsstring \<Rightarrow> jsstring \<Rightarrow> nat option" where
  "match_end p [] = (if p = [] then Some 0 else None)"
| "match_end p (c # cs) =
     (if starts_with_ci p (c # cs) then Some (length p)
      else map_option Suc (match_end p cs))"

text \<open>
  \<open>s.replace(/open[\s\S]*?close/gi, "")\<close>; \<open>skip\<close> counts the code units of a match
  still to be dropped.
\<close>

fun remove_blocks :: "jsstring \<Rightarrow> jsstring \<Rightarrow> nat \<Rightarrow> jsstring \<Rightarrow> jsstring" where
  "remove_blocks op cl skip [] = []"
| "remove_blocks op cl (Suc n) (c # cs) = remove_blocks op cl n cs"
| "remove_blocks op cl 0 (c # cs) =
     (if starts_with_ci op (c # cs)
      then (case match_end cl (drop (length op) (c # cs)) of
              Some k \<Rightarrow> remove_blocks op cl (length op + k - 1) cs
            | None \<Rightarrow> c # remove_blocks op cl 0 cs)
      else c # remove_blocks op cl 0 cs)"

text \<open>\<open>s.replace(/<[^>]+>/g, " ")\<close>.\<close>

fun strip_tags :: "nat \<Rightarrow> jsstring \<Rightarrow> jsstring" where
  "strip_tags skip [] = []"
| "strip_tags (Suc n) (c # cs) = strip_tags n cs"
| "strip_tags 0 (c # cs) =
     (if c = 0x3C \<and> cs \<noteq> [] \<and> hd cs \<noteq> 0x3E \<and> 0x3E \<in> set cs
      then 0x20 # strip_tags (Suc (length (takeWhile (\<lambda>d. d \<noteq> 0x3E) cs))) cs
      else c # strip_tags 0 cs)"

text \<open>\<open>s.replace(/\s+/g, " ")\<close>; \<open>prev\<close> tells that the code unit before was white space.\<close>

fun collapse_ws :: "bool \<Rightarrow> jsstring \<Rightarrow> jsstring" where
  "collapse_ws prev [] = []"
| "collapse_ws prev (c # cs) =
     (if is_ws c then (if prev then collapse_ws True cs else 0x20 # collapse_ws True cs)
      else c # collapse_ws False cs)"

definition cleanText :: "jsstring \<Rightarrow> jsstring" where
  "cleanText html =
     trim (collapse_ws False (strip_tags 0
       (remove_blocks (js ''<noscript'') (js ''</noscript>'') 0
         (remove_blocks (js ''<!--'') (js ''-->'') 0
           (remove_blocks (js ''<style'') (js ''</style>'') 0
             (remove_blocks (js ''<script'') (js ''</script>'') 0 html))))))"


section \<open>scraper.js\<close>

fun str_includes :: "jsstring \<Rightarrow> jsstring \<Rightarrow> bool" where
  "str_includes [] p = (p = [])"
| "str_includes (c # cs) p = (take (length p) (c # cs) = p \<or> str_includes cs p)"

text \<open>
  \<open>ctype.toLowerCase().includes("text/html")\<close>: no code unit outside ASCII has one of
  the letters of \<open>text/html\<close> as its lower case, so lowering the ASCII letters decides it.
\<close>

definition fetchViaHttp :: "'x platform \<Rightarrow> jsstring \<Rightarrow> 'x world \<Rightarrow> (error + jsstring) \<times> 'x world" where
  "fetchViaHttp P u w =
     (case perform (HttpGet u) (fetch P u) w of
        (Inl e, w1) \<Rightarrow> (Inl e, w1)
      | (Inr res, w1) \<Rightarrow>
          if \<not> res_ok res then (Inl (HttpStatus (res_status res)), w1)
          else if \<not> str_includes (map ascii_lower (case res_content_type res of None \<Rightarrow> [] | Some c \<Rightarrow> c))
                    (js ''text/html'')
          then (Inl (NotHtml (case res_content_type res of None \<Rightarrow> [] | Some c \<Rightarrow> c)), w1)
          else (case res_text res of
                  Inl e \<Rightarrow> (Inl e, w1)
                | Inr html \<Rightarrow> (Inr (cleanText html), w1)))"

text \<open>
  The browser is launched, the page loaded and read, and the browser closed on every
  path; \<open>render_page\<close> is all of it up to the reading of \<open>innerText\<close>.
\<close>

definition fetchViaBrowser :: "'x platform \<Rightarrow> jsstring \<Rightarrow> 'x world \<Rightarrow> (error + jsstring) \<times> 'x world" where
  "fetchViaBrowser P u w =
     (case perform (BrowserLoad u) (render_page P u) w of
        (Inl e, w1) \<Rightarrow> (Inl e, w1)
      | (Inr page, w1) \<Rightarrow>
          if trim (innerText page) \<noteq> [] \<and> 200 < length (collapse_ws False (trim (innerText page)))
          then (Inr (trim (collapse_ws False (trim (innerText page)))), w1)
          else (case content page of
                  Inl e \<Rightarrow> (Inl e, w1)
                | Inr html \<Rightarrow> (Inr (cleanText html), w1)))"

definition scrapeText :: "'x platform \<Rightarrow> jsstring \<Rightarrow> 'x world \<Rightarrow> (error + jsstring) \<times> 'x world" where
  "scrapeText P rawUrl w =
     (if rawUrl = [] \<or> \<not> isHttpUrl P rawUrl then (Inl InvalidScrapeUrl, w)
      else case cleanUrl P rawUrl DEFAULT_STRIP_PARAMS of
        Inl e \<Rightarrow> (Inl e, w)
      | Inr u \<Rightarrow>
          (case fetchViaHttp P u w of
             (Inr t, w1) \<Rightarrow> if t \<noteq> [] \<and> 200 \<le> length t then (Inr t, w1) else fetchViaBrowser P u w1
           | (Inl e, w1) \<Rightarrow> fetchViaBrowser P u w1))"

section \<open>routes/scrape.js\<close>

text \<open>
  \<open>safeSlice\<close> appends to a string it cuts the three code units U+00E2, U+20AC, U+00A6 of
  the literal in the source file.
\<close>

definition safeSlice :: "jsstring \<Rightarrow> nat \<Rightarrow> jsstring" where
  "safeSlice s mx = (if mx < length s then js_slice s 0 (int mx) @ [0xE2, 0x20AC, 0xA6] else s)"

datatype scrape_response =
    Status400
  | NoContent422 jsstring
  | Ok200 jsstring nat jsstring
  | Status500

text \<open>
  The handler of \<open>/scrape\<close>; its argument is \<open>req.body.url || req.query.url\<close>. The
  elapsed time in the answer is left out.
\<close>

definition scrape_route :: "'x platform \<Rightarrow> field \<Rightarrow> 'x world \<Rightarrow> scrape_response \<times> 'x world" where
  "scrape_route P urlRaw w =
     (case urlRaw of
        Str s \<Rightarrow>
          if s = [] \<or> \<not> isHttpUrl P s then (Status400, w)
          else (case cleanUrl P s DEFAULT_STRIP_PARAMS of
                  Inl e \<Rightarrow> (Status500, w)
                | Inr u \<Rightarrow>
                    (case scrapeText P u w of
                       (Inl e, w1) \<Rightarrow> (Status500, w1)
                     | (Inr t, w1) \<Rightarrow>
                         if t = [] \<or> trim t = [] then (NoContent422 u, w1)
                         else (Ok200 u (length t) (safeSlice t 1500), w1)))
      | _ \<Rightarrow> (Status400, w))"

section \<open>embed.js and routes/crawl.js\<close>

definition embedTexts :: "'x platform \<Rightarrow> jsstring list \<Rightarrow> 'x world \<Rightarrow> (error + real list list) \<times> 'x world" where
  "embedTexts P texts w =
     (if texts = [] then (Inr [], w) else perform (EmbedCall texts) (embeddings_create P texts) w)"

definition fetchHtml :: "'x platform \<Rightarrow> jsstring \<Rightarrow> 'x world \<Rightarrow> (error + jsstring) \<times> 'x world" where
  "fetchHtml P u w =
     (case perform (HttpGet u) (fetch P u) w of
        (Inl e, w1) \<Rightarrow> (Inl e, w1)
      | (Inr res, w1) \<Rightarrow>
          if \<not> res_ok res then (Inl (HttpStatus (res_status res)), w1)
          else if \<not> str_includes (case res_content_type res of None \<Rightarrow> [] | Some c \<Rightarrow> c) (js ''text/html'')
          then (Inl (NotHtml (case res_content_type res of None \<Rightarrow> [] | Some c \<Rightarrow> c)), w1)
          else (case res_text res of
                  Inl e \<Rightarrow> (Inl e, w1)
                | Inr html \<Rightarrow> (Inr html, w1)))"

text \<open>
  \<open>discoverLinks\<close> collects into a \<open>Set\<close>, which keeps the order of first insertion.
  \<open>link_of\<close> is the callback run on one \<open>href\<close>: \<open>Inr None\<close> is an early return.
\<close>

definition add_link :: "jsstring \<Rightarrow> jsstring list \<Rightarrow> jsstring list" where
  "add_link l out = (if l \<in> set out then out else out @ [l])"

definition link_of ::
  "'x platform \<Rightarrow> jsstring \<Rightarrow> jsstring \<Rightarrow> bool \<Rightarrow> jsstring option \<Rightarrow> jsstring \<Rightarrow> error + jsstring option" where
  "link_of P baseUrl origin sameDomain prefix raw =
     (if raw = [] then Inr None
      else if startsWith raw (js ''#'') then Inr None
      else if startsWith raw (js ''mailto:'') \<or> startsWith raw (js ''javascript:'') then Inr None
      else case new_URL_base P raw baseUrl of
        None \<Rightarrow> Inr None
      | Some u \<Rightarrow>
          if url_protocol u \<noteq> js ''http:'' \<and> url_protocol u \<noteq> js ''https:'' then Inr None
          else if sameDomain \<and> url_origin u \<noteq> origin then Inr None
          else if (case prefix of None \<Rightarrow> False | Some p \<Rightarrow> p \<noteq> [] \<and> \<not> startsWith (url_pathname u) p)
          then Inr None
          else (case cleanUrl P (url_href u) DEFAULT_STRIP_PARAMS of
                  Inl e \<Rightarrow> Inl e
                | Inr l \<Rightarrow> Inr (Some l)))"

fun collect_links ::
  "'x platform \<Rightarrow> jsstring \<Rightarrow> jsstring \<Rightarrow> bool \<Rightarrow> jsstring option \<Rightarrow> jsstring list \<Rightarrow> jsstring list \<Rightarrow>
   error + jsstring list" where
  "collect_links P baseUrl origin sameDomain prefix [] out = Inr out"
| "collect_links P baseUrl origin sameDomain prefix (raw # raws) out =
     (case link_of P baseUrl origin sameDomain prefix raw of
        Inl e \<Rightarrow> Inl e
      | Inr None \<Rightarrow> collect_links P baseUrl origin sameDomain prefix raws out
      | Inr (Some l) \<Rightarrow> collect_links P baseUrl origin sameDomain prefix raws (add_link l out))"

definition discoverLinks ::
  "'x platform \<Rightarrow> jsstring \<Rightarrow> jsstring \<Rightarrow> bool \<Rightarrow> jsstring option \<Rightarrow> error + jsstring list" where
  "discoverLinks P html baseUrl sameDomain prefix =
     (case new_URL P baseUrl of
        None \<Rightarrow> Inl TypeError
      | Some base \<Rightarrow>
          collect_links P baseUrl (url_origin base) sameDomain prefix (cheerio_anchors P html) [])"

text \<open>
  The settings of one crawl after validation, and the variables of the crawl loop.
  \<open>visited\<close> is not a variable of the program: it is the history of the tasks that
  passed the guard of the loop, each with how its page ended.
\<close>

record crawl_cfg =
  namespace :: "jsstring option"
  pathPrefix :: "jsstring option"
  maxDepth :: int
  maxPages :: int
  delayMs :: int
  title :: jsstring

datatype outcome = FetchFailed | ScrapeFailed | IngestFailed | Ingested

record crawl_state =
  seen :: "jsstring set"
  q :: "(jsstring \<times> int) list"
  crawled :: int
  upserted :: int
  visited :: "(jsstring \<times> int \<times> outcome) list"

definition page_title :: "'x platform \<Rightarrow> crawl_cfg \<Rightarrow> jsstring \<Rightarrow> jsstring" where
  "page_title P cfg html =
     (if title cfg \<noteq> [] then title cfg
      else if trim (cheerio_title P html) \<noteq> [] then trim (cheerio_title P html)
      else title cfg)"

definition enqueue :: "crawl_state \<Rightarrow> int \<Rightarrow> jsstring list \<Rightarrow> crawl_state" where
  "enqueue st depth links = st\<lparr>q := q st @ map (\<lambda>l. (l, depth + 1)) (filter (\<lambda>l. l \<notin> seen st) links)\<rparr>"

text \<open>
  The vectors of one page. An embedding without a chunk makes \<open>chunks[i].slice\<close> throw;
  \<open>ingest_page\<close> checks the lengths before it builds them.
\<close>

definition build_vectors ::
  "int \<Rightarrow> int \<Rightarrow> jsstring \<Rightarrow> jsstring \<Rightarrow> jsstring list \<Rightarrow> real list list \<Rightarrow> vector list" where
  "build_vectors now c u t chunks embeddings =
     map (\<lambda>i. \<lparr>vec_id = show_int now @ js ''-'' @ show_int c @ js ''-'' @ decimal i,
               vec_values = embeddings ! i,
               vec_metadata = \<lparr>md_url = u, md_title = t, md_chunk = i,
                                md_text = js_slice (chunks ! i) 0 800\<rparr>\<rparr>)
       [0..<length embeddings]"

definition ingest_page ::
  "'x platform \<Rightarrow> crawl_cfg \<Rightarrow> jsstring \<Rightarrow> jsstring \<Rightarrow> jsstring \<Rightarrow> int \<Rightarrow> 'x world \<Rightarrow>
   ((error + int) \<times> 'x world) option" where
  "ingest_page P cfg u t body c w =
     (case chunkText body 1200 150 of
        None \<Rightarrow> None
      | Some chunks \<Rightarrow>
          if chunks = [] then Some (Inr 0, w)
          else (case embedTexts P chunks w of
                  (Inl e, w1) \<Rightarrow> Some (Inl e, w1)
                | (Inr embeddings, w1) \<Rightarrow>
                    (case date_now P (ext w1) of
                       (now, x2) \<Rightarrow>
                         if length chunks < length embeddings then Some (Inl TypeError, w1\<lparr>ext := x2\<rparr>)
                         else upsertVectors P (build_vectors now c u t chunks embeddings)
                                (namespace cfg) (w1\<lparr>ext := x2\<rparr>))))"

text \<open>The body of the loop from \<open>fetchHtml\<close> on, for a task that passed the guard.\<close>

definition crawl_page ::
  "'x platform \<Rightarrow> crawl_cfg \<Rightarrow> jsstring \<Rightarrow> int \<Rightarrow> crawl_state \<Rightarrow> 'x world \<Rightarrow>
   (crawl_state \<times> 'x world) option" where
  "crawl_page P cfg u depth st w =
     (case fetchHtml P u w of
        (Inl e, w1) \<Rightarrow> Some (st\<lparr>visited := visited st @ [(u, depth, FetchFailed)]\<rparr>, w1)
      | (Inr html, w1) \<Rightarrow>
          (case scrapeText P u w1 of
             (Inl e, w2) \<Rightarrow>
               Some ((case discoverLinks P html u True (pathPrefix cfg) of
                        Inl e \<Rightarrow> st
                      | Inr links \<Rightarrow> enqueue st depth links)
                     \<lparr>visited := visited st @ [(u, depth, ScrapeFailed)]\<rparr>, w2)
           | (Inr body, w2) \<Rightarrow>
               (case ingest_page P cfg u (page_title P cfg html) body (crawled st) w2 of
                  None \<Rightarrow> None
                | Some (r, w3) \<Rightarrow>
                    Some ((case discoverLinks P html u True (pathPrefix cfg) of
                             Inl e \<Rightarrow> st
                           | Inr links \<Rightarrow> enqueue st depth links)
                          \<lparr>upserted := (case r of Inl e \<Rightarrow> upserted st | Inr n \<Rightarrow> upserted st + n),
                            crawled := crawled st + 1,
                            visited := visited st @
                              [(u, depth, case r of Inl e \<Rightarrow> IngestFailed | Inr n \<Rightarrow> Ingested)]\<rparr>,
                          if delayMs cfg \<noteq> 0 then sleep (Num (of_int (delayMs cfg))) w3 else w3))))"

partial_function (option) crawl_loop ::
  "'x platform \<Rightarrow> crawl_cfg \<Rightarrow> crawl_state \<Rightarrow> 'x world \<Rightarrow> (crawl_state \<times> 'x world) option" where
  "crawl_loop P cfg st w =
     (if q st \<noteq> [] \<and> crawled st < maxPages cfg then
        (if fst (hd (q st)) \<in> seen st \<or> maxDepth cfg < snd (hd (q st))
         then crawl_loop P cfg (st\<lparr>q := tl (q st)\<rparr>) w
         else (case crawl_page P cfg (fst (hd (q st))) (snd (hd (q st)))
                      (st\<lparr>q := tl (q st), seen := insert (fst (hd (q st))) (seen st)\<rparr>) w of
                 None \<Rightarrow> None
               | Some (st2, w2) \<Rightarrow> crawl_loop P cfg st2 w2))
      else Some (st, w))"

declare crawl_loop.simps [code]

definition clampInt :: "numeric \<Rightarrow> int \<Rightarrow> int \<Rightarrow> int \<Rightarrow> int" where
  "clampInt val mn mx fallback =
     (case val of
        NotFinite \<Rightarrow> fallback
      | Finite r \<Rightarrow> max mn (min mx (if 0 \<le> r then \<lfloor>r\<rfloor> else \<lceil>r\<rceil>)))"

record crawl_body =
  b_startUrl :: field
  b_namespace :: "jsstring option"
  b_pathPrefix :: field
  b_maxDepth :: "numeric option"
  b_maxPages :: "numeric option"
  b_delayMs :: "numeric option"
  b_title :: "jsstring option"

definition crawl_settings :: "crawl_body \<Rightarrow> crawl_cfg" where
  "crawl_settings body =
     \<lparr>namespace = b_namespace body,
      pathPrefix =
        (case (case b_pathPrefix body of Absent \<Rightarrow> Str (js ''/docs'') | v \<Rightarrow> v) of
           Str s \<Rightarrow> if s \<noteq> [] then Some (if startsWith s (js ''/'') then s else js ''/'' @ s) else None
         | _ \<Rightarrow> None),
      maxDepth = clampInt (case b_maxDepth body of None \<Rightarrow> Finite 1 | Some v \<Rightarrow> v) 0 6 1,
      maxPages = clampInt (case b_maxPages body of None \<Rightarrow> Finite 50 | Some v \<Rightarrow> v) 1 1000 50,
      delayMs = clampInt (case b_delayMs body of None \<Rightarrow> Finite 200 | Some v \<Rightarrow> v) 0 5000 200,
      title = (case b_title body of None \<Rightarrow> [] | Some t \<Rightarrow> t)\<rparr>"

datatype crawl_response =
    BadRequest
  | ServerError
  | Done crawl_cfg crawl_state

definition crawl_start :: "jsstring \<Rightarrow> crawl_state" where
  "crawl_start u = \<lparr>seen = {}, q = [(u, 0)], crawled = 0, upserted = 0, visited = []\<rparr>"

text \<open>
  The handler of \<open>POST /ingest-crawl\<close>. The response carries the settings and the final
  counters; the elapsed time is left out.
\<close>

definition ingest_crawl :: "'x platform \<Rightarrow> crawl_body \<Rightarrow> 'x world \<Rightarrow> (crawl_response \<times> 'x world) option" where
  "ingest_crawl P body w =
     (case b_startUrl body of
        Str s \<Rightarrow>
          if s = [] \<or> \<not> isHttpUrl P s then Some (BadRequest, w)
          else (case cleanUrl P s DEFAULT_STRIP_PARAMS of
                  Inl e \<Rightarrow> Some (ServerError, w)
                | Inr u \<Rightarrow>
                    (case crawl_loop P (crawl_settings body) (crawl_start u) w of
                       None \<Rightarrow> None
                     | Some (st, w1) \<Rightarrow> Some (Done (crawl_settings body) st, w1)))
      | _ \<Rightarrow> Some (BadRequest, w))"

text \<open>
  What the loop keeps true of its state: the visited addresses are marked seen and are
  pairwise distinct, no visited task is deeper than \<open>maxDepth\<close>, and \<open>crawled\<close> counts
  the visited pages that were fetched and scraped and stays within \<open>maxPages\<close>.
\<close>

definition counted :: "jsstring \<times> int \<times> outcome \<Rightarrow> bool" where
  "counted v = (snd (snd v) = IngestFailed \<or> snd (snd v) = Ingested)"

definition crawl_inv :: "crawl_cfg \<Rightarrow> crawl_state \<Rightarrow> bool" where
  "crawl_inv cfg st =
     (fst ` set (visited st) \<subseteq> seen st \<and> distinct (map fst (visited st)) \<and>
      list_all (\<lambda>v. fst (snd v) \<le> maxDepth cfg) (visited st) \<and>
      crawled st = int (length (filter counted (visited st))) \<and>
      crawled st \<le> max 0 (maxPages cfg))"

definition upsert_namespaces :: "'x world \<Rightarrow> jsstring option list" where
  "upsert_namespaces w = concat (map (\<lambda>e. case e of UpsertCall ns b \<Rightarrow> [ns] | _ \<Rightarrow> []) (trace w))"

text \<open>\<open>computeNamespace\<close> of the web client (App.jsx), which names a namespace after the host.\<close>

fun join_dash :: "jsstring list \<Rightarrow> jsstring" where
  "join_dash [] = []"
| "join_dash [x] = x"
| "join_dash (x # y # ys) = x @ js ''-'' @ join_dash (y # ys)"

definition computeNamespace :: "'x platform \<Rightarrow> jsstring \<Rightarrow> jsstring" where
  "computeNamespace P u =
     (case new_URL P u of
        None \<Rightarrow> js ''docs''
      | Some url \<Rightarrow>
          (if join_dash (butlast (split_on 0x2E
                 (if startsWith (url_hostname url) (js ''www.'') then drop 4 (url_hostname url)
                  else url_hostname url))) \<noteq> []
           then join_dash (butlast (split_on 0x2E
                 (if startsWith (url_hostname url) (js ''www.'') then drop 4 (url_hostname url)
                  else url_hostname url)))
           else js ''docs''))"

section \<open>A platform to run examples on\<close>

text \<open>
  \<open>basic\<close> is an instance of the platform for the examples below. Its URL parser accepts
  plain ASCII addresses only: a scheme, then either \<open>//host[:port]\<close> and a path of
  segments, or (for a scheme that is not special) an opaque path, then an optional query
  and fragment, with no credentials, no escapes in the path, no dot segments, no
  backslashes and no numeric hosts. On these the URL standard gives the record computed
  here; every other string is rejected, as the standard rejects a string without a scheme.
  Query strings are split and joined by the form-urlencoded rules for ASCII.
\<close>

definition is_alpha :: "jschar \<Rightarrow> bool" where
  "is_alpha c = (0x41 \<le> c \<and> c \<le> 0x5A \<or> 0x61 \<le> c \<and> c \<le> 0x7A)"

definition is_digit :: "jschar \<Rightarrow> bool" where
  "is_digit c = (0x30 \<le> c \<and> c \<le> 0x39)"

definition is_plain :: "jschar \<Rightarrow> bool" where
  "is_plain c = (is_alpha c \<or> is_digit c \<or> c \<in> set (js ''-._~=&+:@,;!$*()/''))"

definition parse_decimal :: "jsstring \<Rightarrow> nat" where
  "parse_decimal s = foldl (\<lambda>n c. 10 * n + (c - 0x30)) 0 s"

definition default_port :: "jsstring \<Rightarrow> nat option" where
  "default_port sch =
     (if sch = js ''http'' \<or> sch = js ''ws'' then Some 80
      else if sch = js ''https'' \<or> sch = js ''wss'' then Some 443
      else if sch = js ''ftp'' then Some 21 else None)"

definition is_special :: "jsstring \<Rightarrow> bool" where
  "is_special sch = (sch \<in> {js ''http'', js ''https'', js ''ftp'', js ''ws'', js ''wss'', js ''file''})"

definition basic_host_ok :: "jsstring \<Rightarrow> bool" where
  "basic_host_ok h =
     (list_all (\<lambda>l. l \<noteq> [] \<and> list_all (\<lambda>c. 0x61 \<le> c \<and> c \<le> 0x7A \<or> is_digit c) l) (split_on 0x2E h) \<and>
      is_alpha (hd (last (split_on 0x2E h))))"

definition basic_segments_ok :: "jsstring list \<Rightarrow> bool" where
  "basic_segments_ok segs =
     list_all (\<lambda>s. list_all is_plain s \<and> s \<noteq> js ''.'' \<and> s \<noteq> js ''..'') segs"

definition basic_path :: "jsstring \<Rightarrow> jsstring \<Rightarrow> jsstring list" where
  "basic_path sch v =
     (if v = [] then (if is_special sch then [[]] else [])
      else split_on 0x2F (if hd v = 0x2F then tl v else v))"

definition basic_new_URL :: "jsstring \<Rightarrow> url option" where
  "basic_new_URL s =
     (let sch = map ascii_lower (takeWhile (\<lambda>c. c \<noteq> 0x3A) s);
          rest = drop (Suc (length sch)) s;
          body = takeWhile (\<lambda>c. c \<noteq> 0x23) rest;
          frag = (if 0x23 \<in> set rest then Some (drop (Suc (length body)) rest) else None);
          main = takeWhile (\<lambda>c. c \<noteq> 0x3F) body;
          qry = (if 0x3F \<in> set body then Some (drop (Suc (length main)) body) else None);
          auth = takeWhile (\<lambda>c. c \<noteq> 0x2F) (drop 2 main);
          hst = takeWhile (\<lambda>c. c \<noteq> 0x3A) auth;
          prt = drop (Suc (length hst)) auth;
          pth = drop (2 + length auth) main
      in if 0x3A \<notin> set s \<or> sch = [] \<or> \<not> is_alpha (hd sch) \<or>
            \<not> list_all (\<lambda>c. is_alpha c \<or> is_digit c \<or> c \<in> set (js ''+-.'')) sch \<or>
            \<not> list_all (\<lambda>c. is_plain c \<or> c = 0x25) (case qry of None \<Rightarrow> [] | Some v \<Rightarrow> v) \<or>
            \<not> list_all is_plain (case frag of None \<Rightarrow> [] | Some f \<Rightarrow> f)
         then None
         else if startsWith main (js ''//'') then
           (if \<not> basic_host_ok hst \<or> \<not> list_all is_digit prt \<or> 0x40 \<in> set auth \<or>
               65535 < parse_decimal prt \<or> 5 < length prt \<or>
               \<not> basic_segments_ok (basic_path sch pth)
            then None
            else Some \<lparr>scheme = sch, username = [], password = [], host = Some hst,
                   port = (if prt = [] \<or> Some (parse_decimal prt) = default_port sch then None
                           else Some (parse_decimal prt)),
                   path = Segments (basic_path sch pth), query = qry, fragment = frag\<rparr>)
         else if is_special sch \<or> startsWith main (js ''/'') \<or> \<not> list_all is_plain main then None
         else Some \<lparr>scheme = sch, username = [], password = [], host = None, port = None,
                path = Opaque main, query = qry, fragment = frag\<rparr>)"

text \<open>A reference against a base: an absolute address, or a path from the root.\<close>

definition basic_new_URL_base :: "jsstring \<Rightarrow> jsstring \<Rightarrow> url option" where
  "basic_new_URL_base raw base =
     (case basic_new_URL raw of
        Some u \<Rightarrow> Some u
      | None \<Rightarrow>
          (case basic_new_URL base of
             None \<Rightarrow> None
           | Some b \<Rightarrow>
               if startsWith raw (js ''/'') \<and> \<not> startsWith raw (js ''//'')
               then basic_new_URL (scheme b @ js ''://'' @ url_authority b @ raw)
               else None))"

definition hex_digit :: "nat \<Rightarrow> jschar" where
  "hex_digit n = (if n < 10 then 48 + n else 55 + n)"

definition hex_value :: "jschar \<Rightarrow> nat option" where
  "hex_value c =
     (if is_digit c then Some (c - 48)
      else if 0x41 \<le> c \<and> c \<le> 0x46 then Some (c - 55)
      else if 0x61 \<le> c \<and> c \<le> 0x66 then Some (c - 87)
      else None)"

definition form_encode :: "jsstring \<Rightarrow> jsstring" where
  "form_encode s =
     concat (map (\<lambda>c. if is_alpha c \<or> is_digit c \<or> c \<in> set (js ''*-._'') then [c]
                       else if c = 0x20 then js ''+''
                       else if c < 0x80 then [0x25, hex_digit (c div 16), hex_digit (c mod 16)]
                       else [c]) s)"

fun form_decode :: "jsstring \<Rightarrow> jsstring" where
  "form_decode (a # b # c # cs) =
     (if a = 0x25 then
        (case (hex_value b, hex_value c) of
           (Some h, Some l) \<Rightarrow>
             if h < 8 then (16 * h + l) # form_decode cs
             else a # form_decode (b # c # cs)
         | _ \<Rightarrow> a # form_decode (b # c # cs))
      else (if a = 0x2B then 0x20 else a) # form_decode (b # c # cs))"
| "form_decode (a # cs) = (if a = 0x2B then 0x20 else a) # form_decode cs"
| "form_decode [] = []"

definition basic_parse_query :: "jsstring \<Rightarrow> (jsstring \<times> jsstring) list" where
  "basic_parse_query qs =
     map (\<lambda>piece. (form_decode (takeWhile (\<lambda>c. c \<noteq> 0x3D) piece),
                     form_decode (drop (Suc (length (takeWhile (\<lambda>c. c \<noteq> 0x3D) piece))) piece)))
       (filter (\<lambda>piece. piece \<noteq> []) (split_on 0x26 qs))"

fun join_amp :: "jsstring list \<Rightarrow> jsstring" where
  "join_amp [] = []"
| "join_amp [x] = x"
| "join_amp (x # y # ys) = x @ js ''&'' @ join_amp (y # ys)"

definition basic_serialize_query :: "(jsstring \<times> jsstring) list \<Rightarrow> jsstring" where
  "basic_serialize_query params = join_amp (map (\<lambda>kv. form_encode (fst kv) @ js ''='' @ form_encode (snd kv)) params)"

text \<open>
  The HTML reader of the examples: the anchors are the attributes written exactly
  \<open><a href="..."\<close>, the title is what stands between \<open><title>\<close> and \<open></title>\<close>.
\<close>

fun basic_anchors :: "jsstring \<Rightarrow> jsstring list" where
  "basic_anchors [] = []"
| "basic_anchors (c # cs) =
     (if startsWith (c # cs) (js ''<a href=\"'') \<and> 0x22 \<in> set (drop 8 cs)
      then takeWhile (\<lambda>d. d \<noteq> 0x22) (drop 8 cs) # basic_anchors cs
      else basic_anchors cs)"

fun basic_title :: "jsstring \<Rightarrow> jsstring" where
  "basic_title [] = []"
| "basic_title (c # cs) =
     (if startsWith (c # cs) (js ''<title>'')
      then (case match_end (js ''</title>'') (drop 6 cs) of
              Some k \<Rightarrow> take (k - 8) (drop 6 cs)
            | None \<Rightarrow> [])
      else basic_title cs)"

text \<open>
  The external state of the examples is a counter of the effectful calls made so far.
  The site serves two pages under \<open>http://example.com/docs\<close>; the start page links to
  the other one, to itself and to a page that does not exist. The clock stands still,
  \<open>Math.random\<close> returns 1/2, every text is embedded as the vector of its length, and the
  vector store accepts every request.
\<close>

definition home_html :: jsstring where
  "home_html = js ''<title>Docs</title><a href=\"/docs/a\">A</a><a href=\"/docs\">Home</a><a href=\"/docs/missing\">M</a><p>Docs home</p>''"

definition site :: "jsstring \<Rightarrow> jsstring option" where
  "site u =
     (if u = js ''http://example.com/docs'' then Some home_html
      else if u = js ''http://example.com/docs/a'' then
        Some (js ''<title>A</title><a href=\"/docs/b\">B</a><p>Page A</p>'')
      else if u = js ''http://example.com/empty'' then Some []
      else None)"

definition basic_fetch :: "jsstring \<Rightarrow> nat \<Rightarrow> (error + response) \<times> nat" where
  "basic_fetch u n =
     (case site u of
        Some html \<Rightarrow> (Inr \<lparr>res_ok = True, res_status = 200, res_content_type = Some (js ''text/html''),
                             res_text = Inr html\<rparr>, Suc n)
      | None \<Rightarrow> (Inr \<lparr>res_ok = False, res_status = 404, res_content_type = Some (js ''text/html''),
                         res_text = Inr []\<rparr>, Suc n))"

definition basic_render :: "jsstring \<Rightarrow> nat \<Rightarrow> (error + rendered) \<times> nat" where
  "basic_render u n =
     (case site u of
        Some html \<Rightarrow> (Inr \<lparr>innerText = cleanText html, content = Inr html\<rparr>, Suc n)
      | None \<Rightarrow> (Inr \<lparr>innerText = [], content = Inr []\<rparr>, Suc n))"

definition basic :: "nat platform" where
  "basic =
     \<lparr>math_random = (\<lambda>n. (1 / 2, Suc n)),
      date_now = (\<lambda>n. (1700000000000, n)),
      fetch = basic_fetch,
      render_page = basic_render,
      embeddings_create = (\<lambda>texts n. (Inr (map (\<lambda>t. [real (length t)]) texts), Suc n)),
      index_upsert = (\<lambda>ns batch n. (Inr (), Suc n)),
      new_URL = basic_new_URL,
      new_URL_base = basic_new_URL_base,
      parse_path = basic_path,
      parse_query = basic_parse_query,
      serialize_query = basic_serialize_query,
      cheerio_anchors = basic_anchors,
      cheerio_title = basic_title,
      PINECONE_NAMESPACE = None\<rparr>"

text \<open>Requests, settings and vectors of the examples.\<close>

definition start_url :: jsstring where
  "start_url = js ''http://example.com/docs''"

definition body0 :: crawl_body where
  "body0 = \<lparr>b_startUrl = Str start_url, b_namespace = None, b_pathPrefix = Absent,
            b_maxDepth = Some (Finite 0), b_maxPages = Some (Finite 1), b_delayMs = None, b_title = None\<rparr>"

definition cfg0 :: crawl_cfg where
  "cfg0 = \<lparr>namespace = None, pathPrefix = Some (js ''/docs''), maxDepth = 0, maxPages = 1,
           delayMs = 200, title = []\<rparr>"

definition vec_n :: "nat \<Rightarrow> vector" where
  "vec_n k = \<lparr>vec_id = js ''v'' @ decimal k, vec_values = [1],
              vec_metadata = \<lparr>md_url = start_url, md_title = [], md_chunk = k, md_text = []\<rparr>\<rparr>"





definition namespaces_written :: "('r \<times> 'x world) option \<Rightarrow> jsstring option list option" where
  "namespaces_written res = (case res of None \<Rightarrow> None | Some rw \<Rightarrow> Some (upsert_namespaces (snd rw)))"

text \<open>The start page of the site as the crawl leaves it: its text, its vector, the state and the calls made.\<close>

definition home_text :: jsstring where
  "home_text = js ''Docs A Home M Docs home''"

definition home_vector :: vector where
  "home_vector = \<lparr>vec_id = js ''1700000000000-0-0'', vec_values = [23],
       vec_metadata = \<lparr>md_url = start_url, md_title = js ''Docs'', md_chunk = 0, md_text = home_text\<rparr>\<rparr>"

definition home_state :: crawl_state where
  "home_state = \<lparr>seen = {start_url},
            q = [(js ''http://example.com/docs/a'', 1), (js ''http://example.com/docs/missing'', 1)],
            crawled = 1, upserted = 1, visited = [(start_url, 0, Ingested)]\<rparr>"

definition home_world :: "nat world" where
  "home_world = \<lparr>ext = 5, trace = [HttpGet start_url, HttpGet start_url, BrowserLoad start_url,
                               EmbedCall [home_text], UpsertCall None [home_vector], Slept (Num 200)]\<rparr>"

definition scraped_world :: "nat world" where
  "scraped_world = \<lparr>ext = 3, trace = [HttpGet start_url, HttpGet start_url, BrowserLoad start_url]\<rparr>"

section \<open>Example inputs\<close>

definition w0 :: "nat world" where
  "w0 = \<lparr>ext = 0, trace = []\<rparr>"

definition always_fails :: "nat \<Rightarrow> (error + nat) \<times> nat" where
  "always_fails n = (Inl (External ''down''), Suc n)"

definition fails_twice :: "nat \<Rightarrow> (error + nat) \<times> nat" where
  "fails_twice n = (if n < 2 then Inl (External ''down'') else Inr n, Suc n)"

definition mid_random :: "nat \<Rightarrow> real \<times> nat" where
  "mid_random x = (1 / 2, x)"

definition zero_random :: "nat \<Rightarrow> real \<times> nat" where
  "zero_random x = (0, x)"

definition opts3 :: "nat retry_opts" where
  "opts3 = no_opts\<lparr>tries := Some 3, baseDelayMs := Some (Num 300)\<rparr>"

section \<open>Properties of rounding to a double\<close>

lemma rne_error: "\<bar>of_int (rne y) - y\<bar> \<le> 1 / 2"
proof -
  have "of_int \<lfloor>y\<rfloor> \<le> y" "y < of_int \<lfloor>y\<rfloor> + 1" by linarith+
  then show ?thesis by (auto simp: rne_def Let_def)
qed

lemma rne_of_int: "rne (of_int m) = m"
  by (simp add: rne_def)

lemma length_quanta: "length quanta = 2046"
  by (simp add: quanta_def)

lemma quanta_nth: "k < 2046 \<Longrightarrow> quanta ! k = 2 powi (int k - 1074)"
  by (simp add: quanta_def)

lemma ulp_SomeD:
  assumes "ulp a = Some sp"
  obtains k where "k < 2046" "sp = 2 powi (int k - 1074)" "a < sp * 2 ^ 53"
    "\<And>j. j < k \<Longrightarrow> 2 powi (int j - 1074) * 2 ^ 53 \<le> a"
proof -
  from assms obtain k where k: "k < length quanta" "a < quanta ! k * 2 ^ 53" "sp = quanta ! k"
    "\<forall>j<k. \<not> a < quanta ! j * 2 ^ 53"
    unfolding ulp_def find_Some_iff by blast
  from k(1) have k': "k < 2046" by (simp add: length_quanta)
  have "2 powi (int j - 1074) * 2 ^ 53 \<le> a" if "j < k" for j
  proof -
    from that k' have "j < 2046" by simp
    then have "quanta ! j = 2 powi (int j - 1074)" by (rule quanta_nth)
    moreover from k(4) that have "\<not> a < quanta ! j * 2 ^ 53" by blast
    ultimately show ?thesis by (simp only: not_less)
  qed
  with k k' that show thesis by (simp add: quanta_nth)
qed

lemma powi_shift: "(2::real) powi e * 2 ^ n = 2 powi (e + int n)"
  by (simp add: power_int_add del: power_numeral)

lemma powi_nat: "(2::real) powi (int n) = 2 ^ n"
  by (simp del: power_numeral)

lemma pow_top: "(2::real) powi 971 * 2 ^ 53 = 2 ^ 1024"
  using powi_shift [of 971 53] powi_nat [of 1024] by (simp del: power_numeral)

lemma ulp_total:
  assumes "a < 2 ^ 1024"
  shows "\<exists>sp. ulp a = Some sp"
proof -
  have "quanta ! 2045 \<in> set quanta" by (rule nth_mem) (simp add: length_quanta)
  moreover have "quanta ! 2045 = 2 powi 971" by (simp add: quanta_nth)
  moreover have "a < 2 powi 971 * 2 ^ 53" unfolding pow_top by (rule assms)
  ultimately have "\<exists>sp\<in>set quanta. a < sp * 2 ^ 53" by metis
  then have "ulp a \<noteq> None" unfolding ulp_def find_None_iff by blast
  then show ?thesis by auto
qed

lemma ulp_eqI:
  assumes e: "- 1074 \<le> e" "e \<le> 971"
    and up: "a < 2 powi (e + 53)"
    and low: "e = - 1074 \<or> 2 powi (e + 52) \<le> a"
  shows "ulp a = Some (2 powi e)"
proof -
  define k where "k = nat (e + 1074)"
  from e have k: "k < 2046" "int k - 1074 = e" by (simp_all add: k_def)
  have up': "a < 2 powi e * 2 ^ 53"
    using up powi_shift [of e 53] by (simp del: power_numeral)
  have "\<not> a < quanta ! j * 2 ^ 53" if "j < k" for j
  proof -
    from that k have j: "j < 2046" "int j - 1074 + 53 \<le> e + 52" by simp_all
    from that k have "e \<noteq> - 1074" by auto
    with low have "2 powi (e + 52) \<le> a" by simp
    moreover have "(2::real) powi (int j - 1074 + 53) \<le> 2 powi (e + 52)"
      using j(2) by (intro power_int_increasing) simp_all
    moreover have "quanta ! j * 2 ^ 53 = 2 powi (int j - 1074 + 53)"
      using j(1) powi_shift [of "int j - 1074" 53] by (simp add: quanta_nth del: power_numeral)
    ultimately show ?thesis by (simp only: not_less)
  qed
  with up' k have "\<exists>i<length quanta. a < quanta ! i * 2 ^ 53 \<and> 2 powi e = quanta ! i \<and>
      (\<forall>j<i. \<not> a < quanta ! j * 2 ^ 53)"
    by (intro exI [of _ k]) (simp add: length_quanta quanta_nth del: power_numeral)
  then show ?thesis unfolding ulp_def find_Some_iff by simp
qed
lemma fl_eqI:
  assumes "- 1074 \<le> e" "e \<le> 971" "\<bar>x\<bar> < 2 powi (e + 53)" "e = - 1074 \<or> 2 powi (e + 52) \<le> \<bar>x\<bar>"
    and "2 powi e * of_int (rne (x / 2 powi e)) = y" and "\<bar>y\<bar> < 2 ^ 1024"
  shows "fl x = Num y"
proof -
  have "ulp \<bar>x\<bar> = Some (2 powi e)" using assms(1-4) by (rule ulp_eqI)
  with assms(5,6) show ?thesis by (simp add: fl_def Let_def del: power_numeral)
qed

lemma ulp_pos: "ulp a = Some sp \<Longrightarrow> 0 < sp"
  by (erule ulp_SomeD) simp

lemma ulp_half:
  assumes "ulp a = Some sp"
  shows "sp / 2 \<le> a / 2 ^ 53 \<or> sp / 2 = 1 / 2 ^ 1075"
proof -
  from assms obtain k where k: "k < 2046" "sp = 2 powi (int k - 1074)" "a < sp * 2 ^ 53"
    and least: "\<And>j. j < k \<Longrightarrow> 2 powi (int j - 1074) * 2 ^ 53 \<le> a"
    by (rule ulp_SomeD) (rule that)
  show ?thesis
  proof (cases k)
    case 0
    with k have "sp * 2 ^ 1074 = 1" using powi_shift [of "- 1074" 1074] by (simp del: power_numeral)
    then have "sp = 1 / 2 ^ 1074" by (simp add: field_simps del: power_numeral)
    then have "sp / 2 = 1 / 2 ^ 1075" by simp
    then show ?thesis ..
  next
    case (Suc j)
    then have "2 powi (int j - 1074) * 2 ^ 53 \<le> a" using least [of j] by simp
    moreover have "sp = 2 powi (int j - 1074) * 2"
      using k Suc powi_shift [of "int j - 1074" 1] by (simp add: algebra_simps)
    ultimately have "sp / 2 * 2 ^ 53 \<le> a" by (simp del: power_numeral)
    then have "sp / 2 \<le> a / 2 ^ 53" by (simp add: field_simps del: power_numeral)
    then show ?thesis ..
  qed
qed

lemma fl_round:
  assumes "ulp \<bar>x\<bar> = Some sp"
  shows "\<bar>sp * of_int (rne (x / sp)) - x\<bar> \<le> sp / 2"
proof -
  from assms have sp: "0 < sp" by (rule ulp_pos)
  have "\<bar>sp * of_int (rne (x / sp)) - x\<bar> = sp * \<bar>of_int (rne (x / sp)) - x / sp\<bar>"
  proof -
    have "sp * of_int (rne (x / sp)) - x = sp * (of_int (rne (x / sp)) - x / sp)"
      using sp by (simp add: algebra_simps)
    then show ?thesis using sp by (simp add: abs_mult)
  qed
  also have "\<dots> \<le> sp * (1 / 2)"
    using sp rne_error [of "x / sp"] by (intro mult_left_mono) simp_all
  finally show ?thesis by simp
qed

text \<open>
  Rounding a real of magnitude at most \<open>2^1023\<close> gives a finite number, off by at most the
  relative error \<open>2^-53\<close> or, next to zero, by half the spacing of the subnormals.
\<close>

lemma fl_error:
  assumes "\<bar>x\<bar> \<le> 2 ^ 1023"
  shows "\<exists>y. fl x = Num y \<and> \<bar>y - x\<bar> \<le> \<bar>x\<bar> / 2 ^ 53 + 1 / 2 ^ 1075"
proof -
  have "(2::real) ^ 1023 < 2 ^ 1024" by simp
  with assms have "\<bar>x\<bar> < 2 ^ 1024" by linarith
  then obtain sp where sp: "ulp \<bar>x\<bar> = Some sp" using ulp_total by blast
  define y where "y = sp * of_int (rne (x / sp))"
  have r: "\<bar>y - x\<bar> \<le> sp / 2" unfolding y_def using sp by (rule fl_round)
  have h: "sp / 2 \<le> \<bar>x\<bar> / 2 ^ 53 + 1 / 2 ^ 1075"
    using ulp_half [OF sp] by (auto simp del: power_numeral intro: add_increasing2 add_increasing)
  from r h have e: "\<bar>y - x\<bar> \<le> \<bar>x\<bar> / 2 ^ 53 + 1 / 2 ^ 1075" by linarith
  have "\<bar>x\<bar> / 2 ^ 53 \<le> \<bar>x\<bar> / 4" by simp
  moreover have "(1::real) / 2 ^ 1075 \<le> 1" by simp
  moreover have "(2::real) ^ 1024 = 2 * 2 ^ 1023" by simp
  moreover have "(4::real) \<le> 2 ^ 1023" by simp
  ultimately have "\<bar>y\<bar> < 2 ^ 1024" using e assms by linarith
  with sp have "fl x = Num y" by (simp add: fl_def Let_def y_def del: power_numeral)
  with e show ?thesis by blast
qed

text \<open>An integer of magnitude below \<open>2^53\<close> is a double.\<close>

lemma fl_of_int:
  assumes "\<bar>m\<bar> < 2 ^ 53"
  shows "fl (of_int m) = Num (of_int m)"
proof -
  let ?a = "\<bar>of_int m :: real\<bar>"
  from assms have a: "?a < 2 ^ 53"
    by (metis of_int_abs of_int_less_numeral_power_cancel_iff)
  have "(2::real) ^ 53 < 2 ^ 1024" by simp
  with a have a': "?a < 2 ^ 1024" by linarith
  then obtain sp where sp: "ulp ?a = Some sp" using ulp_total by blast
  then obtain k where k: "k < 2046" "sp = 2 powi (int k - 1074)" "?a < sp * 2 ^ 53"
    and least: "\<And>j. j < k \<Longrightarrow> 2 powi (int j - 1074) * 2 ^ 53 \<le> ?a"
    by (rule ulp_SomeD) (rule that)
  have "k \<le> 1074"
  proof (rule ccontr)
    assume "\<not> k \<le> 1074"
    then have "2 powi (int 1074 - 1074) * 2 ^ 53 \<le> ?a" by (intro least) simp
    with a show False by (simp del: power_numeral)
  qed
  then have "sp * 2 ^ (1074 - k) = 1"
    using k powi_shift [of "int k - 1074" "1074 - k"] by (simp del: power_numeral)
  then have iq: "1 / sp = 2 ^ (1074 - k)"
    using ulp_pos [OF sp] by (simp add: field_simps del: power_numeral)
  have "of_int m / sp = of_int m * (1 / sp)" by simp
  also have "\<dots> = of_int (m * 2 ^ (1074 - k))" unfolding iq by simp
  finally have "rne (of_int m / sp) = m * 2 ^ (1074 - k)" by (simp only: rne_of_int)
  then have "sp * of_int (rne (of_int m / sp)) = of_int m * (sp * 2 ^ (1074 - k))" by simp
  also have "\<dots> = of_int m" using \<open>sp * 2 ^ (1074 - k) = 1\<close> by (simp only: mult_1_right)
  finally have y: "sp * of_int (rne (of_int m / sp)) = of_int m" .
  from sp y a' show ?thesis by (simp add: fl_def Let_def del: power_numeral)
qed
text \<open>The doubles denoted by the literals \<open>0.8\<close> and \<open>0.4\<close>, and three sums and products of them.\<close>

lemma fl_08: "fl 0.8 = Num (3602879701896397 / 4503599627370496)"
  by (rule fl_eqI [where e = "- 53"]) (simp_all add: rne_def power_int_minus)

lemma fl_04: "fl 0.4 = Num (3602879701896397 / 9007199254740992)"
  by (rule fl_eqI [where e = "- 54"]) (simp_all add: rne_def power_int_minus)

lemma fl_half_04: "fl (1 / 2 * (3602879701896397 / 9007199254740992)) = Num (3602879701896397 / 18014398509481984)"
  by (rule fl_eqI [where e = "- 55"]) (simp_all add: rne_def power_int_minus)

lemma fl_sum_half: "fl (3602879701896397 / 4503599627370496 + 3602879701896397 / 18014398509481984) = Num 1"
  by (rule fl_eqI [where e = "- 52"]) (simp_all add: rne_def power_int_minus)

lemma fl_sum_zero: "fl (3602879701896397 / 4503599627370496 + 0) = Num (3602879701896397 / 4503599627370496)"
  by (rule fl_eqI [where e = "- 53"]) (simp_all add: rne_def power_int_minus)

lemma fl_0: "fl 0 = Num 0"
  using fl_of_int [of 0] by simp

lemma jitter_half: "num_add (fl 0.8) (num_mul (Num (1 / 2)) (fl 0.4)) = Num 1"
  by (simp only: fl_08 fl_04 num_mul.simps fl_half_04 num_add.simps fl_sum_half)

lemma jitter_zero: "num_add (fl 0.8) (num_mul (Num 0) (fl 0.4)) = Num (3602879701896397 / 4503599627370496)"
  by (simp only: fl_08 fl_04 num_mul.simps mult_zero_left fl_0 num_add.simps fl_sum_zero)
text \<open>Powers of two and whole backoffs below \<open>2^53\<close> are computed exactly.\<close>

lemma Math_pow2_exact:
  assumes "0 \<le> n" "n \<le> 52"
  shows "Math_pow2 n = Num (2 ^ nat n)"
proof -
  have "(2::int) ^ nat n < 2 ^ 53" using assms by (intro power_strict_increasing) simp_all
  then have "\<bar>(2::int) ^ nat n\<bar> < 2 ^ 53" by simp
  then have "fl (of_int (2 ^ nat n)) = Num (of_int (2 ^ nat n))" by (rule fl_of_int)
  moreover have "(2::real) powi n = of_int (2 ^ nat n)"
    using assms powi_nat [of "nat n"] by simp
  ultimately show ?thesis by (simp add: Math_pow2_def)
qed

lemma backoff_exact:
  assumes "b \<in> \<int>" "1 \<le> attempt" "attempt \<le> 53" "\<bar>b\<bar> * 2 ^ nat (attempt - 1) < 2 ^ 53"
  shows "num_mul (Num b) (Math_pow2 (attempt - 1)) = Num (b * 2 ^ nat (attempt - 1))"
proof -
  from assms(1) obtain m where m: "b = of_int m" by (auto elim: Ints_cases)
  let ?k = "nat (attempt - 1)"
  have "\<bar>of_int (m * 2 ^ ?k) :: real\<bar> < 2 ^ 53" using assms(4) m by (simp add: abs_mult)
  then have "\<bar>m * 2 ^ ?k\<bar> < 2 ^ 53"
    by (metis of_int_abs of_int_less_numeral_power_cancel_iff)
  then have "fl (of_int (m * 2 ^ ?k)) = Num (of_int (m * 2 ^ ?k))" by (rule fl_of_int)
  moreover have "Math_pow2 (attempt - 1) = Num (2 ^ ?k)" using assms(2,3) by (intro Math_pow2_exact) simp_all
  ultimately show ?thesis using m by simp
qed

lemma retry_delay_no_jitter:
  "retry_delay random b False attempt w = (num_mul b (Math_pow2 (attempt - 1)), w)"
  by (simp add: retry_delay_def)

lemma retry_delay_jitter:
  "retry_delay random b True attempt w =
     (num_mul (num_mul b (Math_pow2 (attempt - 1))) (num_add (fl 0.8) (num_mul (Num (fst (random (ext w)))) (fl 0.4))),
      w\<lparr>ext := snd (random (ext w))\<rparr>)"
  by (simp add: retry_delay_def split: prod.splits)

text \<open>With a whole base delay and a random draw of 1/2 the delay is the backoff itself.\<close>

lemma retry_delay_half:
  assumes "b \<in> \<int>" "1 \<le> attempt" "attempt \<le> 53" "\<bar>b\<bar> * 2 ^ nat (attempt - 1) < 2 ^ 53"
    and "fst (random (ext w)) = 1 / 2"
  shows "retry_delay random (Num b) True attempt w =
         (Num (b * 2 ^ nat (attempt - 1)), w\<lparr>ext := snd (random (ext w))\<rparr>)"
proof -
  from assms(1) obtain m where m: "b = of_int m" by (auto elim: Ints_cases)
  let ?k = "nat (attempt - 1)"
  have "\<bar>of_int (m * 2 ^ ?k) :: real\<bar> < 2 ^ 53" using assms(4) m by (simp add: abs_mult)
  then have "\<bar>m * 2 ^ ?k\<bar> < 2 ^ 53"
    by (metis of_int_abs of_int_less_numeral_power_cancel_iff)
  then have "fl (of_int (m * 2 ^ ?k)) = Num (of_int (m * 2 ^ ?k))" by (rule fl_of_int)
  then have "num_mul (Num (b * 2 ^ ?k)) (Num 1) = Num (b * 2 ^ ?k)" using m by simp
  then show ?thesis
    by (simp only: retry_delay_jitter assms(5) jitter_half backoff_exact [OF assms(1-4)])
qed

lemma Math_round_int: "b \<in> \<int> \<Longrightarrow> Math_round (Num b) = Num b"
  by (auto elim!: Ints_cases)
text \<open>
  The jittered delay for a whole backoff \<open>B\<close> of at most \<open>2^40\<close>: it is finite, and rounding
  it gives an integer between \<open>0.8 B\<close> and \<open>1.2 B\<close>, each rounded. The tenths \<open>0.8 B + 0.5\<close>
  and \<open>1.2 B + 0.5\<close> are at least a tenth away from the next integer, which is far more
  than the rounding errors of the three operations.
\<close>

lemma floor_tenths:
  fixes B :: int
  shows "10 * real_of_int \<lfloor>4 / 5 * real_of_int B + 1 / 2\<rfloor> \<le> 8 * real_of_int B + 4"
    and "12 * real_of_int B + 5 \<le> 10 * real_of_int \<lfloor>6 / 5 * real_of_int B + 1 / 2\<rfloor> + 9"
proof -
  have a: "4 / 5 * real_of_int B + 1 / 2 = real_of_int (8 * B + 5) / real_of_int 10" by simp
  have b: "6 / 5 * real_of_int B + 1 / 2 = real_of_int (12 * B + 5) / real_of_int 10" by simp
  have "10 * ((8 * B + 5) div 10) \<le> 8 * B + 4" by presburger
  then have "real_of_int (10 * ((8 * B + 5) div 10)) \<le> real_of_int (8 * B + 4)" by (simp only: of_int_le_iff)
  then show "10 * real_of_int \<lfloor>4 / 5 * real_of_int B + 1 / 2\<rfloor> \<le> 8 * real_of_int B + 4"
    unfolding a floor_divide_of_int_eq by simp
  have "12 * B + 5 \<le> 10 * ((12 * B + 5) div 10) + 9" by presburger
  then have "real_of_int (12 * B + 5) \<le> real_of_int (10 * ((12 * B + 5) div 10) + 9)" by (simp only: of_int_le_iff)
  then show "12 * real_of_int B + 5 \<le> 10 * real_of_int \<lfloor>6 / 5 * real_of_int B + 1 / 2\<rfloor> + 9"
    unfolding b floor_divide_of_int_eq by simp
qed

lemma div53:
  fixes x :: real
  assumes "\<bar>x\<bar> \<le> m" "m / 2 ^ 53 \<le> c"
  shows "\<bar>x\<bar> / 2 ^ 53 \<le> c"
proof -
  have "\<bar>x\<bar> / 2 ^ 53 \<le> m / 2 ^ 53" using assms(1) by (rule divide_right_mono) simp
  with assms(2) show ?thesis by simp
qed

lemma jitter_bounds:
  fixes B :: int
  assumes r: "0 \<le> r" "r < 1" and B: "0 \<le> B" "B \<le> 2 ^ 40"
  shows "\<exists>d. num_mul (Num (of_int B)) (num_add (fl 0.8) (num_mul (Num r) (fl 0.4))) = Num d \<and>
             \<lfloor>4 / 5 * real_of_int B + 1 / 2\<rfloor> \<le> \<lfloor>d + 1 / 2\<rfloor> \<and>
             \<lfloor>d + 1 / 2\<rfloor> \<le> \<lfloor>6 / 5 * real_of_int B + 1 / 2\<rfloor>"
proof -
  define c8 :: real where "c8 = 3602879701896397 / 4503599627370496"
  define c4 :: real where "c4 = 3602879701896397 / 9007199254740992"
  define u :: real where "u = 1 / 2 ^ 50"
  have u: "0 < u" "u = 1 / 1125899906842624" by (simp_all add: u_def)
  have c8: "4 / 5 \<le> c8" "c8 \<le> 4 / 5 + u" by (simp_all add: c8_def u)
  have c4: "0 \<le> c4" "c4 \<le> 2 / 5 + u" by (simp_all add: c4_def u)
  have tiny: "(1::real) / 2 ^ 1075 \<le> u / 4" by (simp add: u)
  have big: "(2::real) ^ 41 \<le> 2 ^ 1023" by simp
  have rc: "0 \<le> r * c4" "r * c4 \<le> c4"
    using r c4 by (simp_all add: mult_left_le_one_le)
  have rc1: "\<bar>r * c4\<bar> \<le> 1 / 2" using rc c4 u by simp
  then have "\<bar>r * c4\<bar> \<le> 2 ^ 1023" using big by simp
  then obtain p where p: "fl (r * c4) = Num p" and pe: "\<bar>p - r * c4\<bar> \<le> \<bar>r * c4\<bar> / 2 ^ 53 + 1 / 2 ^ 1075"
    using fl_error by blast
  have "\<bar>r * c4\<bar> / 2 ^ 53 \<le> u / 4" using rc1 by (rule div53) (simp add: u)
  with pe tiny have "\<bar>p - r * c4\<bar> \<le> u" by linarith
  with rc c4 have pb: "- u \<le> p" "p \<le> 2 / 5 + 2 * u" by linarith+
  have cp: "\<bar>c8 + p\<bar> \<le> 2" using pb c8 u by simp
  then have "\<bar>c8 + p\<bar> \<le> 2 ^ 1023" using big by simp
  then obtain f where f: "fl (c8 + p) = Num f" and fe: "\<bar>f - (c8 + p)\<bar> \<le> \<bar>c8 + p\<bar> / 2 ^ 53 + 1 / 2 ^ 1075"
    using fl_error by blast
  have "\<bar>c8 + p\<bar> / 2 ^ 53 \<le> u / 4" using cp by (rule div53) (simp add: u)
  with fe tiny have "\<bar>f - (c8 + p)\<bar> \<le> u" by linarith
  with pb c8 have fb: "4 / 5 - 2 * u \<le> f" "f \<le> 6 / 5 + 4 * u" by linarith+
  let ?B = "real_of_int B"
  have B': "0 \<le> ?B" "?B \<le> 2 ^ 40"
    using B by (simp, metis of_int_le_numeral_power_cancel_iff)
  have Bu: "?B * u \<le> 1 / 1024" using B' by (simp add: u)
  have lo: "?B * (4 / 5 - 2 * u) \<le> ?B * f" using fb(1) B'(1) by (rule mult_left_mono)
  have hi: "?B * f \<le> ?B * (6 / 5 + 4 * u)" using fb(2) B'(1) by (rule mult_left_mono)
  have Bf: "4 / 5 * ?B - 2 / 1024 \<le> ?B * f" "?B * f \<le> 6 / 5 * ?B + 4 / 1024"
    using lo hi Bu by (simp_all add: algebra_simps)
  have Bf0: "0 \<le> ?B * f" using B'(1) fb(1) u by (intro mult_nonneg_nonneg) simp_all
  have Bf1: "?B * f \<le> 2 ^ 41" using Bf(2) B'(2) by simp
  have Bf2: "\<bar>?B * f\<bar> \<le> 2 ^ 41" using Bf0 Bf1 by simp
  then have "\<bar>?B * f\<bar> \<le> 2 ^ 1023" using big by simp
  then obtain d where d: "fl (?B * f) = Num d" and de: "\<bar>d - ?B * f\<bar> \<le> \<bar>?B * f\<bar> / 2 ^ 53 + 1 / 2 ^ 1075"
    using fl_error by blast
  have "\<bar>?B * f\<bar> / 2 ^ 53 \<le> 1 / 4096" using Bf2 by (rule div53) simp
  with de tiny u have "\<bar>d - ?B * f\<bar> \<le> 1 / 2048" by simp
  with Bf have db: "4 / 5 * ?B - 1 / 100 \<le> d" "d \<le> 6 / 5 * ?B + 1 / 100" by linarith+
  have "real_of_int \<lfloor>4 / 5 * ?B + 1 / 2\<rfloor> \<le> d + 1 / 2"
    using floor_tenths(1) [of B] db(1) by linarith
  then have 1: "\<lfloor>4 / 5 * ?B + 1 / 2\<rfloor> \<le> \<lfloor>d + 1 / 2\<rfloor>" by (simp only: le_floor_iff)
  have "d + 1 / 2 < real_of_int \<lfloor>6 / 5 * ?B + 1 / 2\<rfloor> + 1"
    using floor_tenths(2) [of B] db(2) by linarith
  then have 2: "\<lfloor>d + 1 / 2\<rfloor> \<le> \<lfloor>6 / 5 * ?B + 1 / 2\<rfloor>" by (simp add: floor_le_iff)
  have "num_mul (Num ?B) (num_add (fl 0.8) (num_mul (Num r) (fl 0.4))) = Num d"
    by (simp only: fl_08 fl_04 c8_def [symmetric] c4_def [symmetric] num_mul.simps num_add.simps p f d)
  with 1 2 show ?thesis by blast
qed

text \<open>Every integer in that range is the backoff times some factor in [0.8, 1.2), rounded.\<close>

lemma jitter_factor:
  fixes B s :: int
  assumes B: "0 \<le> B"
    and s: "\<lfloor>4 / 5 * real_of_int B + 1 / 2\<rfloor> \<le> s" "s \<le> \<lfloor>6 / 5 * real_of_int B + 1 / 2\<rfloor>"
  shows "\<exists>k::real. 4 / 5 \<le> k \<and> k < 6 / 5 \<and> s = round (real_of_int B * k)"
proof (cases "B = 0")
  case True
  with s have "s = 0" by simp
  with True show ?thesis by (intro exI [of _ 1]) simp
next
  case False
  let ?B = "real_of_int B" and ?s = "real_of_int s"
  from False B have Bp: "1 \<le> ?B" by simp
  have lo: "4 / 5 * ?B - 1 / 2 < ?s"
    using s(1) by (simp add: floor_le_iff)
  have "?s \<le> 6 / 5 * ?B + 1 / 2" using s(2) by (simp add: le_floor_iff)
  moreover have "?s \<noteq> 6 / 5 * ?B + 1 / 2"
  proof
    assume "?s = 6 / 5 * ?B + 1 / 2"
    then have "real_of_int (10 * s) = real_of_int (12 * B + 5)" by simp
    then have "10 * s = 12 * B + 5" by (simp only: of_int_eq_iff)
    then show False by presburger
  qed
  ultimately have hi: "?s < 6 / 5 * ?B + 1 / 2" by simp
  have Bk: "?B * (x / ?B) = x" for x using Bp by simp
  consider "?s < 4 / 5 * ?B" | "4 / 5 * ?B \<le> ?s" "?s < 6 / 5 * ?B" | "6 / 5 * ?B \<le> ?s" by linarith
  then show ?thesis
  proof cases
    case 1
    then have "?s \<le> 4 / 5 * ?B + 1 / 2" by simp
    then have "s \<le> \<lfloor>4 / 5 * ?B + 1 / 2\<rfloor>" by (simp only: le_floor_iff)
    with s(1) have "s = round (?B * (4 / 5))" by (simp add: round_def mult.commute)
    then show ?thesis by (intro exI [of _ "4 / 5"]) simp
  next
    case 2
    have "4 / 5 \<le> ?s / ?B" "?s / ?B < 6 / 5" using 2 Bp by (simp_all add: field_simps)
    moreover have "s = round (?B * (?s / ?B))" by (simp only: Bk round_of_int)
    ultimately show ?thesis by blast
  next
    case 3
    have "B \<noteq> 1"
    proof
      assume "B = 1"
      with 3 hi have "6 / 5 \<le> ?s" "?s < 17 / 10" by simp_all
      then have "real_of_int 1 < ?s" "?s < real_of_int 2" by simp_all
      then have "1 < s" "s < 2" by (simp_all only: of_int_less_iff)
      then show False by simp
    qed
    with False B have "2 \<le> B" by simp
    then have B2: "2 \<le> ?B" by simp
    have "4 / 5 \<le> (?s - 1 / 2) / ?B" "(?s - 1 / 2) / ?B < 6 / 5"
      using 3 hi B2 Bp by (simp_all add: field_simps)
    moreover have "s = round (?B * ((?s - 1 / 2) / ?B))" by (simp only: Bk) (simp add: round_def)
    ultimately show ?thesis by blast
  qed
qed
lemma pow_int_Ints: "b \<in> \<int> \<Longrightarrow> b * 2 ^ k \<in> \<int>"
  by (auto elim!: Ints_cases)

lemma retry_pause_half:
  assumes "b \<in> \<int>" "1 \<le> attempt" "attempt \<le> 53" "\<bar>b\<bar> * 2 ^ nat (attempt - 1) < 2 ^ 53"
    and "fst (random (ext w)) = 1 / 2"
  shows "retry_pause random (Num b) True None attempt err w =
         sleep (Num (b * 2 ^ nat (attempt - 1))) (w\<lparr>ext := snd (random (ext w))\<rparr>)"
  using assms(1) by (simp add: retry_pause_def retry_delay_half [where random = random and w = w, OF assms] Math_round_int pow_int_Ints del: Math_round.simps)

text \<open>With a random draw of 0 the factor is the double \<open>0.8\<close>.\<close>

lemma retry_pause_zero:
  assumes "b \<in> \<int>" "1 \<le> attempt" "attempt \<le> 53" "\<bar>b\<bar> * 2 ^ nat (attempt - 1) < 2 ^ 53"
    and "fst (random (ext w)) = 0"
  shows "retry_pause random (Num b) True None attempt err w =
         sleep (Math_round (fl (b * 2 ^ nat (attempt - 1) * (3602879701896397 / 4503599627370496))))
           (w\<lparr>ext := snd (random (ext w))\<rparr>)"
  by (simp only: retry_pause_def retry_delay_jitter assms(5) jitter_zero backoff_exact [OF assms(1-4)]
        num_mul.simps prod.case option.case)

lemma fl_delays:
  "fl (250 * (3602879701896397 / 4503599627370496)) = Num 200"
  "fl (300 * (3602879701896397 / 4503599627370496)) = Num 240"
  "fl (500 * (3602879701896397 / 4503599627370496)) = Num 400"
  "fl (600 * (3602879701896397 / 4503599627370496)) = Num 480"
proof -
  show "fl (250 * (3602879701896397 / 4503599627370496)) = Num 200"
    by (rule fl_eqI [where e = "- 45"]) (simp_all add: rne_def power_int_minus)
  show "fl (300 * (3602879701896397 / 4503599627370496)) = Num 240"
    by (rule fl_eqI [where e = "- 45"]) (simp_all add: rne_def power_int_minus)
  show "fl (500 * (3602879701896397 / 4503599627370496)) = Num 400"
    by (rule fl_eqI [where e = "- 44"]) (simp_all add: rne_def power_int_minus)
  show "fl (600 * (3602879701896397 / 4503599627370496)) = Num 480"
    by (rule fl_eqI [where e = "- 44"]) (simp_all add: rne_def power_int_minus)
qed

text \<open>
  The restriction to whole delays is needed: with a base delay of 1.25 ms and a random draw
  of \<open>1 - 2^-52\<close> the first sleep is 2 ms, which 1.25 ms times a factor below 1.2 never
  rounds to.
\<close>

lemma fractional_delay:
  "Math_round (num_mul (num_mul (Num 1.25) (Math_pow2 0))
     (num_add (fl 0.8) (num_mul (Num (1 - 1 / 2 ^ 52)) (fl 0.4)))) = Num 2"
proof -
  have 1: "Math_pow2 0 = Num 1" using Math_pow2_exact [of 0] by simp
  have 2: "fl (1.25 * 1) = Num 1.25"
    by (rule fl_eqI [where e = "- 52"]) (simp_all add: rne_def power_int_minus)
  have 3: "fl ((1 - 1 / 2 ^ 52) * (3602879701896397 / 9007199254740992)) = Num (900719925474099 / 2251799813685248)"
    by (rule fl_eqI [where e = "- 54"]) (simp_all add: rne_def power_int_minus)
  have 4: "fl (3602879701896397 / 4503599627370496 + 900719925474099 / 2251799813685248) =
           Num (5404319552844595 / 4503599627370496)"
    by (rule fl_eqI [where e = "- 52"]) (simp_all add: rne_def power_int_minus)
  have 5: "fl (1.25 * (5404319552844595 / 4503599627370496)) = Num (3 / 2)"
    by (rule fl_eqI [where e = "- 52"]) (simp_all add: rne_def power_int_minus)
  have "num_mul (num_mul (Num 1.25) (Math_pow2 0))
     (num_add (fl 0.8) (num_mul (Num (1 - 1 / 2 ^ 52)) (fl 0.4))) = Num (3 / 2)"
    by (simp only: 1 2 3 4 5 fl_08 fl_04 num_mul.simps num_add.simps)
  then show ?thesis by simp
qed

lemma fractional_delay_factor: "k < 6 / 5 \<Longrightarrow> round (1.25 * k :: real) < 2"
  by (simp add: round_def floor_less_iff)

text \<open>
  A draw at which rounding matters: the exact value of \<open>250 * (0.8 + r * 0.4)\<close> is below
  200.5, the three double operations give 200.5, and the sleep is 201 ms.
\<close>

lemma rounded_delay:
  "Math_round (num_mul (num_mul (Num 250) (Math_pow2 0))
     (num_add (fl 0.8) (num_mul (Num (5629499534213 / 1125899906842624)) (fl 0.4)))) = Num 201"
  "250 * (0.8 + 5629499534213 / 1125899906842624 * 0.4) < (200.5 :: real)"
proof -
  have 1: "Math_pow2 0 = Num 1" using Math_pow2_exact [of 0] by simp
  have 2: "fl (250 * 1) = Num 250" using fl_of_int [of 250] by simp
  have 3: "fl (5629499534213 / 1125899906842624 * (3602879701896397 / 9007199254740992)) =
           Num (2305843009213645 / 1152921504606846976)"
    by (rule fl_eqI [where e = "- 61"]) (simp_all add: rne_def power_int_minus)
  have 4: "fl (3602879701896397 / 4503599627370496 + 2305843009213645 / 1152921504606846976) =
           Num (1805943450575569 / 2251799813685248)"
    by (rule fl_eqI [where e = "- 53"]) (simp_all add: rne_def power_int_minus)
  have 5: "fl (250 * (1805943450575569 / 2251799813685248)) = Num (401 / 2)"
    by (rule fl_eqI [where e = "- 45"]) (simp_all add: rne_def power_int_minus)
  have "num_mul (num_mul (Num 250) (Math_pow2 0))
     (num_add (fl 0.8) (num_mul (Num (5629499534213 / 1125899906842624)) (fl 0.4))) = Num (401 / 2)"
    by (simp only: 1 2 3 4 5 fl_08 fl_04 num_mul.simps num_add.simps)
  then show "Math_round (num_mul (num_mul (Num 250) (Math_pow2 0))
     (num_add (fl 0.8) (num_mul (Num (5629499534213 / 1125899906842624)) (fl 0.4)))) = Num 201" by simp
  show "250 * (0.8 + 5629499534213 / 1125899906842624 * 0.4) < (200.5 :: real)" by simp
qed


section \<open>Properties of withRetry\<close>

lemma withRetry_loop_done: "t < attempt \<Longrightarrow> withRetry_loop random fn t b j cb attempt lastErr w = (Inl lastErr, w)"
  by (simp add: withRetry_loop.simps)

lemma withRetry_loop_ok:
  "attempt \<le> t \<Longrightarrow> fn w = (Inr v, w1) \<Longrightarrow> withRetry_loop random fn t b j cb attempt lastErr w = (Inr v, w1)"
  by (subst withRetry_loop.simps) simp

lemma withRetry_loop_retry:
  "attempt < t \<Longrightarrow> fn w = (Inl err, w1) \<Longrightarrow>
   withRetry_loop random fn t b j cb attempt lastErr w =
   withRetry_loop random fn t b j cb (attempt + 1) err (retry_pause random b j cb attempt err w1)"
  by (subst withRetry_loop.simps) simp

lemma withRetry_loop_last:
  "attempt = t \<Longrightarrow> fn w = (Inl err, w1) \<Longrightarrow>
   withRetry_loop random fn t b j cb attempt lastErr w = (Inl err, w1)"
  by (subst withRetry_loop.simps) (simp add: withRetry_loop_done)

lemma trace_retry_pause:
  "\<exists>ms. trace (retry_pause random b j cb attempt err w) = trace w @ [Slept ms]"
  by (auto simp: retry_pause_def retry_delay_def sleep_def Let_def split: prod.splits option.splits)

lemma calls_retry_pause: "calls OpCall (retry_pause random b j cb attempt err w) = calls OpCall w"
  using trace_retry_pause [of random b j cb attempt err w] by (auto simp: calls_def)

lemma perform_fail:
  "isl (fst (f (ext w))) \<Longrightarrow>
   \<exists>e. perform ev f w = (Inl e, w\<lparr>ext := snd (f (ext w)), trace := trace w @ [ev]\<rparr>) \<and> f (ext w) = (Inl e, snd (f (ext w)))"
  by (cases "f (ext w)") (auto simp: perform_def isl_def)

text \<open>
  C6. With \<open>tries = 3\<close>, an operation that fails on every invocation is invoked exactly
  three times and the call ends with the error of the last invocation; an operation that
  fails twice and then succeeds makes the call return the value of its third invocation.
\<close>

theorem withRetry_three_attempts:
  fixes f :: "'x \<Rightarrow> (error + 'a) \<times> 'x" and fn :: "'x world \<Rightarrow> (error + 'a) \<times> 'x world"
  assumes t: "tries opts = Some 3"
  defines "b \<equiv> (case baseDelayMs opts of None \<Rightarrow> default_baseDelayMs | Some b \<Rightarrow> b)"
  defines "j \<equiv> (case jitter opts of None \<Rightarrow> default_jitter | Some j \<Rightarrow> j)"
  shows "((\<forall>x. isl (fst (f x))) \<longrightarrow>
            (\<exists>e w'. withRetry random (perform OpCall f) opts w = (Inl e, w') \<and>
                     calls OpCall w' = calls OpCall w + 3 \<and>
                     (\<exists>x. f x = (Inl e, ext w')))) \<and>
         (fn w = (Inl e1, w1) \<and>
          fn (retry_pause random b j (onRetry opts) 1 e1 w1) = (Inl e2, w2) \<and>
          fn (retry_pause random b j (onRetry opts) 2 e2 w2) = (Inr v, w3) \<longrightarrow>
            withRetry random fn opts w = (Inr v, w3))"
proof (intro conjI impI)
  assume fails: "\<forall>x. isl (fst (f x))"
  let ?op = "perform OpCall f :: 'x world \<Rightarrow> (error + 'a) \<times> 'x world"
  let ?pause = "retry_pause random b j (onRetry opts)"
  obtain e1 where s1: "?op w = (Inl e1, w\<lparr>ext := snd (f (ext w)), trace := trace w @ [OpCall]\<rparr>)"
    using perform_fail [of f w OpCall] fails by blast
  define w1 where "w1 = w\<lparr>ext := snd (f (ext w)), trace := trace w @ [OpCall]\<rparr>"
  define p1 where "p1 = ?pause 1 e1 w1"
  obtain e2 where s2: "?op p1 = (Inl e2, p1\<lparr>ext := snd (f (ext p1)), trace := trace p1 @ [OpCall]\<rparr>)"
    using perform_fail [of f p1 OpCall] fails by blast
  define w2 where "w2 = p1\<lparr>ext := snd (f (ext p1)), trace := trace p1 @ [OpCall]\<rparr>"
  define p2 where "p2 = ?pause 2 e2 w2"
  obtain e3 where s3: "?op p2 = (Inl e3, p2\<lparr>ext := snd (f (ext p2)), trace := trace p2 @ [OpCall]\<rparr>)"
    and f3: "f (ext p2) = (Inl e3, snd (f (ext p2)))"
    using perform_fail [of f p2 OpCall] fails by blast
  define w3 where "w3 = p2\<lparr>ext := snd (f (ext p2)), trace := trace p2 @ [OpCall]\<rparr>"
  have "withRetry random ?op opts w = withRetry_loop random ?op 3 b j (onRetry opts) 1 Undefined w"
    by (simp add: withRetry_def t b_def j_def)
  also have "\<dots> = withRetry_loop random ?op 3 b j (onRetry opts) 2 e1 p1"
    using withRetry_loop_retry [of 1 3 ?op w e1 w1] s1 by (simp add: w1_def p1_def)
  also have "\<dots> = withRetry_loop random ?op 3 b j (onRetry opts) 3 e2 p2"
    using withRetry_loop_retry [of 2 3 ?op p1 e2 w2] s2 by (simp add: w2_def p2_def)
  also have "\<dots> = (Inl e3, w3)"
    using withRetry_loop_last [of 3 3 ?op p2 e3 w3] s3 by (simp add: w3_def)
  finally have res: "withRetry random ?op opts w = (Inl e3, w3)" .
  have "calls OpCall w3 = calls OpCall p2 + 1" by (simp add: w3_def calls_def)
  also have "calls OpCall p2 = calls OpCall w2" by (simp add: p2_def calls_retry_pause)
  also have "calls OpCall w2 = calls OpCall p1 + 1" by (simp add: w2_def calls_def)
  also have "calls OpCall p1 = calls OpCall w1" by (simp add: p1_def calls_retry_pause)
  also have "calls OpCall w1 = calls OpCall w + 1" by (simp add: w1_def calls_def)
  finally have cnt: "calls OpCall w3 = calls OpCall w + 3" by simp
  have "f (ext p2) = (Inl e3, ext w3)" using f3 by (simp add: w3_def)
  with res cnt show "\<exists>e w'. withRetry random ?op opts w = (Inl e, w') \<and>
                     calls OpCall w' = calls OpCall w + 3 \<and> (\<exists>x. f x = (Inl e, ext w'))"
    by blast
next
  assume chain: "fn w = (Inl e1, w1) \<and>
          fn (retry_pause random b j (onRetry opts) 1 e1 w1) = (Inl e2, w2) \<and>
          fn (retry_pause random b j (onRetry opts) 2 e2 w2) = (Inr v, w3)"
  have "withRetry random fn opts w = withRetry_loop random fn 3 b j (onRetry opts) 1 Undefined w"
    by (simp add: withRetry_def t b_def j_def)
  also have "\<dots> = withRetry_loop random fn 3 b j (onRetry opts) 2 e1 (retry_pause random b j (onRetry opts) 1 e1 w1)"
    using withRetry_loop_retry [of 1 3 fn w e1 w1] chain by simp
  also have "\<dots> = withRetry_loop random fn 3 b j (onRetry opts) 3 e2 (retry_pause random b j (onRetry opts) 2 e2 w2)"
    using withRetry_loop_retry [of 2 3 fn _ e2 w2] chain by simp
  also have "\<dots> = (Inr v, w3)"
    using withRetry_loop_ok [of 3 3 fn _ v w3] chain by simp
  finally show "withRetry random fn opts w = (Inr v, w3)" .
qed

text \<open>
  The two runs of C6 on a counting operation: three invocations, two sleeps between them.
\<close>

theorem withRetry_three_attempts_witness:
  "calls OpCall (snd (withRetry mid_random (perform OpCall always_fails) opts3 w0)) = 3 \<and>
   fst (withRetry mid_random (perform OpCall always_fails) opts3 w0) = Inl (External ''down'') \<and>
   withRetry mid_random (perform OpCall fails_twice) opts3 w0 =
     (Inr 2, \<lparr>ext = 3, trace = [OpCall, Slept (Num 300), OpCall, Slept (Num 600), OpCall]\<rparr>)"
proof -
  have t: "tries opts3 = Some 3" by (simp add: opts3_def no_opts_def)
  have fails: "\<forall>x. isl (fst (always_fails x))" by (simp add: always_fails_def)
  from withRetry_three_attempts [where opts = opts3 and f = always_fails and random = mid_random and w = w0
      and fn = "perform OpCall fails_twice" and ?e1.0 = "External ''down''" and ?e2.0 = "External ''down''"
      and ?w1.0 = "\<lparr>ext = 1, trace = [OpCall]\<rparr>" and ?w2.0 = "\<lparr>ext = 2, trace = [OpCall, Slept (Num 300), OpCall]\<rparr>"
      and v = 2 and ?w3.0 = "\<lparr>ext = 3, trace = [OpCall, Slept (Num 300), OpCall, Slept (Num 600), OpCall]\<rparr>", OF t]
  have a: "\<exists>e w'. withRetry mid_random (perform OpCall always_fails) opts3 w0 = (Inl e, w') \<and>
                     calls OpCall w' = calls OpCall w0 + 3 \<and> (\<exists>x. always_fails x = (Inl e, ext w'))"
   and b: "perform OpCall fails_twice w0 = (Inl (External ''down''), \<lparr>ext = 1, trace = [OpCall]\<rparr>) \<and>
          perform OpCall fails_twice (retry_pause mid_random (Num 300) True None 1 (External ''down'') \<lparr>ext = 1, trace = [OpCall]\<rparr>)
             = (Inl (External ''down''), \<lparr>ext = 2, trace = [OpCall, Slept (Num 300), OpCall]\<rparr>) \<and>
          perform OpCall fails_twice (retry_pause mid_random (Num 300) True None 2 (External ''down'') \<lparr>ext = 2, trace = [OpCall, Slept (Num 300), OpCall]\<rparr>)
             = (Inr 2, \<lparr>ext = 3, trace = [OpCall, Slept (Num 300), OpCall, Slept (Num 600), OpCall]\<rparr>) \<longrightarrow>
            withRetry mid_random (perform OpCall fails_twice) opts3 w0 = (Inr 2, \<lparr>ext = 3, trace = [OpCall, Slept (Num 300), OpCall, Slept (Num 600), OpCall]\<rparr>)"
    using fails by (simp_all add: opts3_def no_opts_def default_jitter_def)
  have chain: "perform OpCall fails_twice w0 = (Inl (External ''down''), \<lparr>ext = 1, trace = [OpCall]\<rparr>) \<and>
          perform OpCall fails_twice (retry_pause mid_random (Num 300) True None 1 (External ''down'') \<lparr>ext = 1, trace = [OpCall]\<rparr>)
             = (Inl (External ''down''), \<lparr>ext = 2, trace = [OpCall, Slept (Num 300), OpCall]\<rparr>) \<and>
          perform OpCall fails_twice (retry_pause mid_random (Num 300) True None 2 (External ''down'') \<lparr>ext = 2, trace = [OpCall, Slept (Num 300), OpCall]\<rparr>)
             = (Inr 2, \<lparr>ext = 3, trace = [OpCall, Slept (Num 300), OpCall, Slept (Num 600), OpCall]\<rparr>)"
    by (simp add: perform_def fails_twice_def w0_def retry_pause_half mid_random_def sleep_def)
  from a obtain e w' where r: "withRetry mid_random (perform OpCall always_fails) opts3 w0 = (Inl e, w')"
    and c: "calls OpCall w' = calls OpCall w0 + 3" and x: "\<exists>x. always_fails x = (Inl e, ext w')" by blast
  from x have "e = External ''down''" by (auto simp: always_fails_def)
  with r c b chain show ?thesis by (simp add: calls_def w0_def)
qed

lemma slept_append: "slept (w\<lparr>trace := trace w @ [Slept ms]\<rparr>) = slept w @ [ms]"
  by (simp add: slept_def)

lemma slept_ext: "slept (w\<lparr>ext := x\<rparr>) = slept w"
  by (simp add: slept_def)

lemma slept_retry_pause:
  "slept (retry_pause random b j cb attempt err w) =
   slept w @ [Math_round (fst (retry_delay random b j attempt w))]"
  by (cases "retry_delay random b j attempt w"; cases cb)
     (simp_all add: retry_pause_def sleep_def slept_def retry_delay_def Let_def split: if_splits prod.splits)

text \<open>
  C9, amended. Called without options, \<open>withRetry\<close> runs with \<open>tries = 3\<close>,
  \<open>baseDelayMs = 250\<close> and jitter on. After a failed attempt that is not the last it
  sleeps once, before the next attempt, for \<open>Math.round\<close> of the delay, which is
  \<open>baseDelayMs * Math.pow(2, attempt - 1)\<close>, multiplied when jitter is on by
  \<open>0.8 + Math.random() * 0.4\<close>, all in double arithmetic; after the last failed attempt it
  does not sleep. For a base delay of \<open>n\<close> whole milliseconds with a backoff
  \<open>n * 2^(attempt-1)\<close> of at most \<open>2^40\<close>, the sleep without jitter is the backoff, and
  the sleep with jitter is a whole number between 0.8 and 1.2 times the backoff, each
  rounded: it is the backoff times some factor in [0.8, 1.2), rounded. \<open>Math.random\<close> is
  any oracle with values in [0, 1).
\<close>

theorem withRetry_backoff:
  fixes n :: int
  assumes rnd: "\<forall>x. 0 \<le> fst (random x) \<and> fst (random x) < 1"
    and n: "0 \<le> n" "n * 2 ^ nat (attempt - 1) \<le> 2 ^ 40"
    and a: "1 \<le> attempt" "attempt \<le> 41"
  shows "withRetry random fn no_opts w = withRetry_loop random fn 3 (Num 250) True None 1 Undefined w \<and>
         (i < t \<and> fn w = (Inl err, w1) \<longrightarrow>
            withRetry_loop random fn t b j cb i lastErr w =
            withRetry_loop random fn t b j cb (i + 1) err (retry_pause random b j cb i err w1)) \<and>
         (i = t \<and> fn w = (Inl err, w1) \<longrightarrow>
            withRetry_loop random fn t b j cb i lastErr w = (Inl err, w1)) \<and>
         slept (retry_pause random b False cb i err w1) =
           slept w1 @ [Math_round (num_mul b (Math_pow2 (i - 1)))] \<and>
         slept (retry_pause random b True cb i err w1) =
           slept w1 @ [Math_round (num_mul (num_mul b (Math_pow2 (i - 1)))
                                     (num_add (fl 0.8) (num_mul (Num (fst (random (ext w1)))) (fl 0.4))))] \<and>
         slept (retry_pause random (Num (of_int n)) False cb attempt err w1) =
           slept w1 @ [Num (of_int (n * 2 ^ nat (attempt - 1)))] \<and>
         (\<exists>ms k. slept (retry_pause random (Num (of_int n)) True cb attempt err w1) = slept w1 @ [Num (of_int ms)] \<and>
                  round (4 / 5 * real_of_int (n * 2 ^ nat (attempt - 1))) \<le> ms \<and>
                  ms \<le> round (6 / 5 * real_of_int (n * 2 ^ nat (attempt - 1))) \<and>
                  4 / 5 \<le> k \<and> k < 6 / 5 \<and>
                  ms = round (real_of_int (n * 2 ^ nat (attempt - 1)) * k))"
proof (intro conjI impI)
  show "withRetry random fn no_opts w = withRetry_loop random fn 3 (Num 250) True None 1 Undefined w"
    by (simp add: withRetry_def no_opts_def default_tries_def default_baseDelayMs_def default_jitter_def)
next
  assume "i < t \<and> fn w = (Inl err, w1)"
  then show "withRetry_loop random fn t b j cb i lastErr w =
            withRetry_loop random fn t b j cb (i + 1) err (retry_pause random b j cb i err w1)"
    by (simp add: withRetry_loop_retry)
next
  assume "i = t \<and> fn w = (Inl err, w1)"
  then show "withRetry_loop random fn t b j cb i lastErr w = (Inl err, w1)"
    by (simp add: withRetry_loop_last)
next
  show "slept (retry_pause random b False cb i err w1) =
           slept w1 @ [Math_round (num_mul b (Math_pow2 (i - 1)))]"
    by (simp only: slept_retry_pause retry_delay_no_jitter fst_conv)
next
  show "slept (retry_pause random b True cb i err w1) =
           slept w1 @ [Math_round (num_mul (num_mul b (Math_pow2 (i - 1)))
                                     (num_add (fl 0.8) (num_mul (Num (fst (random (ext w1)))) (fl 0.4))))]"
    by (simp only: slept_retry_pause retry_delay_jitter fst_conv)
next
  let ?B = "n * 2 ^ nat (attempt - 1)"
  have "real_of_int ?B \<le> 2 ^ 40" using n(2) by (metis of_int_le_numeral_power_cancel_iff)
  moreover have "\<bar>real_of_int n\<bar> * 2 ^ nat (attempt - 1) = real_of_int ?B" using n(1) by simp
  moreover have "(2::real) ^ 40 < 2 ^ 53" by simp
  ultimately have small: "\<bar>real_of_int n\<bar> * 2 ^ nat (attempt - 1) < 2 ^ 53" by linarith
  have att: "attempt \<le> 53" using a(2) by simp
  have bk: "num_mul (Num (of_int n)) (Math_pow2 (attempt - 1)) = Num (of_int ?B)"
    using backoff_exact [OF Ints_of_int a(1) att small] by simp
  show "slept (retry_pause random (Num (of_int n)) False cb attempt err w1) = slept w1 @ [Num (of_int ?B)]"
    using Math_round_int [OF Ints_of_int, of ?B]
    by (simp only: slept_retry_pause retry_delay_no_jitter fst_conv bk)
  have B0: "0 \<le> ?B" using n(1) by simp
  from rnd have r: "0 \<le> fst (random (ext w1))" "fst (random (ext w1)) < 1" by simp_all
  from jitter_bounds [OF r B0 n(2)] obtain d where
    d: "num_mul (Num (of_int ?B)) (num_add (fl 0.8) (num_mul (Num (fst (random (ext w1)))) (fl 0.4))) = Num d"
    and lo: "\<lfloor>4 / 5 * real_of_int ?B + 1 / 2\<rfloor> \<le> \<lfloor>d + 1 / 2\<rfloor>"
    and hi: "\<lfloor>d + 1 / 2\<rfloor> \<le> \<lfloor>6 / 5 * real_of_int ?B + 1 / 2\<rfloor>" by blast
  from jitter_factor [OF B0 lo hi] obtain k :: real where
    k: "4 / 5 \<le> k" "k < 6 / 5" "\<lfloor>d + 1 / 2\<rfloor> = round (real_of_int ?B * k)" by blast
  have "slept (retry_pause random (Num (of_int n)) True cb attempt err w1) =
        slept w1 @ [Num (of_int \<lfloor>d + 1 / 2\<rfloor>)]"
    by (simp only: slept_retry_pause retry_delay_jitter fst_conv bk d Math_round.simps)
  with lo hi k show "\<exists>ms k. slept (retry_pause random (Num (of_int n)) True cb attempt err w1) = slept w1 @ [Num (of_int ms)] \<and>
                  round (4 / 5 * real_of_int ?B) \<le> ms \<and> ms \<le> round (6 / 5 * real_of_int ?B) \<and>
                  4 / 5 \<le> k \<and> k < 6 / 5 \<and> ms = round (real_of_int ?B * k)"
    unfolding round_def by blast
qed

text \<open>
  Two runs with the default options and a random draw of 1/2, on an operation that fails
  twice and on one that always fails: both sleep 250 ms and then 500 ms, and the second
  ends with the third failure, without another sleep.
\<close>

theorem withRetry_backoff_witness:
  "withRetry mid_random (perform OpCall fails_twice) no_opts w0 =
     (Inr 2, \<lparr>ext = 3, trace = [OpCall, Slept (Num 250), OpCall, Slept (Num 500), OpCall]\<rparr>) \<and>
   withRetry mid_random (perform OpCall always_fails) no_opts w0 =
     (Inl (External ''down''), \<lparr>ext = 3, trace = [OpCall, Slept (Num 250), OpCall, Slept (Num 500), OpCall]\<rparr>)"
proof -
  have rnd: "\<forall>x. 0 \<le> fst (mid_random x) \<and> fst (mid_random x) < 1" by (simp add: mid_random_def)
  have p1: "perform OpCall fails_twice w0 = (Inl (External ''down''), \<lparr>ext = 1, trace = [OpCall]\<rparr>)"
    "perform OpCall always_fails w0 = (Inl (External ''down''), \<lparr>ext = 1, trace = [OpCall]\<rparr>)"
    by (simp_all add: perform_def fails_twice_def always_fails_def w0_def)
  have q1: "retry_pause mid_random (Num 250) True None 1 (External ''down'') \<lparr>ext = 1, trace = [OpCall]\<rparr>
             = \<lparr>ext = 1, trace = [OpCall, Slept (Num 250)]\<rparr>"
    by (simp add: retry_pause_half mid_random_def sleep_def)
  have p2: "perform OpCall fails_twice \<lparr>ext = 1, trace = [OpCall, Slept (Num 250)]\<rparr> =
            (Inl (External ''down''), \<lparr>ext = 2, trace = [OpCall, Slept (Num 250), OpCall]\<rparr>)"
    "perform OpCall always_fails \<lparr>ext = 1, trace = [OpCall, Slept (Num 250)]\<rparr> =
            (Inl (External ''down''), \<lparr>ext = 2, trace = [OpCall, Slept (Num 250), OpCall]\<rparr>)"
    by (simp_all add: perform_def fails_twice_def always_fails_def)
  have q2: "retry_pause mid_random (Num 250) True None 2 (External ''down'') \<lparr>ext = 2, trace = [OpCall, Slept (Num 250), OpCall]\<rparr>
             = \<lparr>ext = 2, trace = [OpCall, Slept (Num 250), OpCall, Slept (Num 500)]\<rparr>"
    by (simp add: retry_pause_half mid_random_def sleep_def)
  have p3: "perform OpCall fails_twice \<lparr>ext = 2, trace = [OpCall, Slept (Num 250), OpCall, Slept (Num 500)]\<rparr> =
            (Inr 2, \<lparr>ext = 3, trace = [OpCall, Slept (Num 250), OpCall, Slept (Num 500), OpCall]\<rparr>)"
    "perform OpCall always_fails \<lparr>ext = 2, trace = [OpCall, Slept (Num 250), OpCall, Slept (Num 500)]\<rparr> =
            (Inl (External ''down''), \<lparr>ext = 3, trace = [OpCall, Slept (Num 250), OpCall, Slept (Num 500), OpCall]\<rparr>)"
    by (simp_all add: perform_def fails_twice_def always_fails_def)
  have h1: "(0::int) \<le> 250" "(250::int) * 2 ^ nat (1 - 1) \<le> 2 ^ 40" "(1::int) \<le> 1" "(1::int) \<le> 41" by simp_all
  have h2: "(0::int) \<le> 250" "(250::int) * 2 ^ nat (2 - 1) \<le> 2 ^ 40" "(1::int) \<le> 2" "(2::int) \<le> 41" by simp_all
  note B1 = withRetry_backoff [OF rnd h1, where b = "Num 250" and j = True and cb = None and t = 3]
  note B2 = withRetry_backoff [OF rnd h2, where b = "Num 250" and j = True and cb = None and t = 3]
  have "withRetry mid_random (perform OpCall fails_twice) no_opts w0 =
        withRetry_loop mid_random (perform OpCall fails_twice) 3 (Num 250) True None 1 Undefined w0"
    using B1 [where fn = "perform OpCall fails_twice" and w = w0] by simp
  also have "\<dots> = withRetry_loop mid_random (perform OpCall fails_twice) 3 (Num 250) True None 2 (External ''down'')
                     \<lparr>ext = 1, trace = [OpCall, Slept (Num 250)]\<rparr>"
    using B1 [where fn = "perform OpCall fails_twice" and w = w0 and i = 1 and err = "External ''down''"
        and ?w1.0 = "\<lparr>ext = 1, trace = [OpCall]\<rparr>" and lastErr = Undefined] p1 q1 by simp
  also have "\<dots> = withRetry_loop mid_random (perform OpCall fails_twice) 3 (Num 250) True None 3 (External ''down'')
                     \<lparr>ext = 2, trace = [OpCall, Slept (Num 250), OpCall, Slept (Num 500)]\<rparr>"
    using B2 [where fn = "perform OpCall fails_twice" and w = "\<lparr>ext = 1, trace = [OpCall, Slept (Num 250)]\<rparr>" and i = 2
        and err = "External ''down''" and ?w1.0 = "\<lparr>ext = 2, trace = [OpCall, Slept (Num 250), OpCall]\<rparr>"
        and lastErr = "External ''down''"] p2 q2 by simp
  also have "\<dots> = (Inr 2, \<lparr>ext = 3, trace = [OpCall, Slept (Num 250), OpCall, Slept (Num 500), OpCall]\<rparr>)"
    using p3 by (simp add: withRetry_loop_ok)
  finally have 1: "withRetry mid_random (perform OpCall fails_twice) no_opts w0 =
     (Inr 2, \<lparr>ext = 3, trace = [OpCall, Slept (Num 250), OpCall, Slept (Num 500), OpCall]\<rparr>)" .
  have "withRetry mid_random (perform OpCall always_fails) no_opts w0 =
        withRetry_loop mid_random (perform OpCall always_fails) 3 (Num 250) True None 1 Undefined w0"
    using B1 [where fn = "perform OpCall always_fails" and w = w0] by simp
  also have "\<dots> = withRetry_loop mid_random (perform OpCall always_fails) 3 (Num 250) True None 2 (External ''down'')
                     \<lparr>ext = 1, trace = [OpCall, Slept (Num 250)]\<rparr>"
    using B1 [where fn = "perform OpCall always_fails" and w = w0 and i = 1 and err = "External ''down''"
        and ?w1.0 = "\<lparr>ext = 1, trace = [OpCall]\<rparr>" and lastErr = Undefined] p1 q1 by simp
  also have "\<dots> = withRetry_loop mid_random (perform OpCall always_fails) 3 (Num 250) True None 3 (External ''down'')
                     \<lparr>ext = 2, trace = [OpCall, Slept (Num 250), OpCall, Slept (Num 500)]\<rparr>"
    using B2 [where fn = "perform OpCall always_fails" and w = "\<lparr>ext = 1, trace = [OpCall, Slept (Num 250)]\<rparr>" and i = 2
        and err = "External ''down''" and ?w1.0 = "\<lparr>ext = 2, trace = [OpCall, Slept (Num 250), OpCall]\<rparr>"
        and lastErr = "External ''down''"] p2 q2 by simp
  also have "\<dots> = (Inl (External ''down''), \<lparr>ext = 3, trace = [OpCall, Slept (Num 250), OpCall, Slept (Num 500), OpCall]\<rparr>)"
    using B1 [where fn = "perform OpCall always_fails"
        and w = "\<lparr>ext = 2, trace = [OpCall, Slept (Num 250), OpCall, Slept (Num 500)]\<rparr>" and i = 3
        and err = "External ''down''" and ?w1.0 = "\<lparr>ext = 3, trace = [OpCall, Slept (Num 250), OpCall, Slept (Num 500), OpCall]\<rparr>"
        and lastErr = "External ''down''"] p3 by simp
  finally have 2: "withRetry mid_random (perform OpCall always_fails) no_opts w0 =
     (Inl (External ''down''), \<lparr>ext = 3, trace = [OpCall, Slept (Num 250), OpCall, Slept (Num 500), OpCall]\<rparr>)" .
  from 1 2 show ?thesis by simp
qed


text \<open>
  C9 as stated fails: the default base delay is 250, not 300. With a random draw of 0 a
  call without options sleeps 200 ms and then 400 ms, where a base delay of 300 gives 240 ms
  and 480 ms.
\<close>

theorem withRetry_default_delay_counterexample:
  "default_baseDelayMs \<noteq> Num 300 \<and>
   slept (snd (withRetry zero_random (perform OpCall fails_twice) no_opts w0)) = [Num 200, Num 400] \<and>
   slept (snd (withRetry zero_random (perform OpCall fails_twice) (no_opts\<lparr>baseDelayMs := Some (Num 300)\<rparr>) w0)) =
     [Num 240, Num 480]"
proof -
  have p1: "perform OpCall fails_twice w0 = (Inl (External ''down''), \<lparr>ext = 1, trace = [OpCall]\<rparr>)"
    by (simp add: perform_def fails_twice_def w0_def)
  have q1: "retry_pause zero_random (Num 250) True None 1 (External ''down'') \<lparr>ext = 1, trace = [OpCall]\<rparr>
             = \<lparr>ext = 1, trace = [OpCall, Slept (Num 200)]\<rparr>"
    "retry_pause zero_random (Num 300) True None 1 (External ''down'') \<lparr>ext = 1, trace = [OpCall]\<rparr>
             = \<lparr>ext = 1, trace = [OpCall, Slept (Num 240)]\<rparr>"
    by (simp_all add: retry_pause_zero zero_random_def sleep_def fl_delays [simplified])
  have p2: "perform OpCall fails_twice \<lparr>ext = 1, trace = [OpCall, Slept ms]\<rparr> =
            (Inl (External ''down''), \<lparr>ext = 2, trace = [OpCall, Slept ms, OpCall]\<rparr>)" for ms
    by (simp add: perform_def fails_twice_def)
  have q2: "retry_pause zero_random (Num 250) True None 2 (External ''down'') \<lparr>ext = 2, trace = [OpCall, Slept (Num 200), OpCall]\<rparr>
             = \<lparr>ext = 2, trace = [OpCall, Slept (Num 200), OpCall, Slept (Num 400)]\<rparr>"
    "retry_pause zero_random (Num 300) True None 2 (External ''down'') \<lparr>ext = 2, trace = [OpCall, Slept (Num 240), OpCall]\<rparr>
             = \<lparr>ext = 2, trace = [OpCall, Slept (Num 240), OpCall, Slept (Num 480)]\<rparr>"
    by (simp_all add: retry_pause_zero zero_random_def sleep_def fl_delays [simplified])
  have p3: "perform OpCall fails_twice \<lparr>ext = 2, trace = [OpCall, Slept ms, OpCall, Slept ms']\<rparr> =
            (Inr 2, \<lparr>ext = 3, trace = [OpCall, Slept ms, OpCall, Slept ms', OpCall]\<rparr>)" for ms ms'
    by (simp add: perform_def fails_twice_def)
  have run: "withRetry_loop zero_random (perform OpCall fails_twice) 3 (Num b) True None 1 Undefined w0 =
             (Inr 2, \<lparr>ext = 3, trace = [OpCall, Slept ms, OpCall, Slept ms', OpCall]\<rparr>)"
    if "retry_pause zero_random (Num b) True None 1 (External ''down'') \<lparr>ext = 1, trace = [OpCall]\<rparr>
             = \<lparr>ext = 1, trace = [OpCall, Slept ms]\<rparr>"
      and "retry_pause zero_random (Num b) True None 2 (External ''down'') \<lparr>ext = 2, trace = [OpCall, Slept ms, OpCall]\<rparr>
             = \<lparr>ext = 2, trace = [OpCall, Slept ms, OpCall, Slept ms']\<rparr>" for b ms ms'
  proof -
    have "withRetry_loop zero_random (perform OpCall fails_twice) 3 (Num b) True None 1 Undefined w0 =
          withRetry_loop zero_random (perform OpCall fails_twice) 3 (Num b) True None 2 (External ''down'')
                     \<lparr>ext = 1, trace = [OpCall, Slept ms]\<rparr>"
      using withRetry_loop_retry [of 1 3 "perform OpCall fails_twice" w0 "External ''down''" "\<lparr>ext = 1, trace = [OpCall]\<rparr>"
          zero_random "Num b" True None Undefined] p1 that(1) by simp
    also have "\<dots> = withRetry_loop zero_random (perform OpCall fails_twice) 3 (Num b) True None 3 (External ''down'')
                     \<lparr>ext = 2, trace = [OpCall, Slept ms, OpCall, Slept ms']\<rparr>"
      using withRetry_loop_retry [of 2 3 "perform OpCall fails_twice" "\<lparr>ext = 1, trace = [OpCall, Slept ms]\<rparr>" "External ''down''"
          "\<lparr>ext = 2, trace = [OpCall, Slept ms, OpCall]\<rparr>" zero_random "Num b" True None "External ''down''"] p2 that(2) by simp
    also have "\<dots> = (Inr 2, \<lparr>ext = 3, trace = [OpCall, Slept ms, OpCall, Slept ms', OpCall]\<rparr>)"
      using p3 by (simp add: withRetry_loop_ok)
    finally show ?thesis .
  qed
  have "withRetry zero_random (perform OpCall fails_twice) no_opts w0 =
        withRetry_loop zero_random (perform OpCall fails_twice) 3 (Num 250) True None 1 Undefined w0"
    by (simp add: withRetry_def no_opts_def default_tries_def default_baseDelayMs_def default_jitter_def)
  with run [OF q1(1) q2(1)]
  have 1: "slept (snd (withRetry zero_random (perform OpCall fails_twice) no_opts w0)) = [Num 200, Num 400]"
    by (simp add: slept_def)
  have "withRetry zero_random (perform OpCall fails_twice) (no_opts\<lparr>baseDelayMs := Some (Num 300)\<rparr>) w0 =
        withRetry_loop zero_random (perform OpCall fails_twice) 3 (Num 300) True None 1 Undefined w0"
    by (simp add: withRetry_def no_opts_def default_tries_def default_jitter_def)
  with run [OF q1(2) q2(2)]
  have 2: "slept (snd (withRetry zero_random (perform OpCall fails_twice) (no_opts\<lparr>baseDelayMs := Some (Num 300)\<rparr>) w0)) =
     [Num 240, Num 480]"
    by (simp add: slept_def)
  from 1 2 show ?thesis by (simp add: default_baseDelayMs_def)
qed

section \<open>Properties of chunk and upsertVectors\<close>

lemma js_slice_window:
  assumes "0 \<le> i" "0 \<le> m"
  shows "js_slice xs i (i + m) = take (nat m) (drop (nat i) xs)"
proof -
  consider "i + m \<le> int (length xs)" | "i \<le> int (length xs)" "int (length xs) < i + m" | "int (length xs) < i"
    by linarith
  then show ?thesis
  proof cases
    case 1
    then have "nat (i + m - i) = nat m" by simp
    with 1 assms show ?thesis by (simp add: js_slice_def Let_def min_def)
  next
    case 2
    then have "length (drop (nat i) xs) \<le> nat m" using assms by simp
    with 2 assms show ?thesis by (simp add: js_slice_def Let_def min_def)
  next
    case 3
    then have "drop (nat i) xs = []" using assms by simp
    with 3 assms show ?thesis by (simp add: js_slice_def Let_def min_def)
  qed
qed

lemma ceil_div_le: "0 < sz \<Longrightarrow> ((n + sz - 1) div sz \<le> k) = (n \<le> sz * (k::nat))"
proof -
  assume sz: "0 < sz"
  have "((n + sz - 1) div sz \<le> k) = ((n + sz - 1) div sz < Suc k)" by auto
  also have "\<dots> = (n + sz - 1 < Suc k * sz)" using sz by (simp add: div_less_iff_less_mult)
  also have "\<dots> = (n \<le> sz * k)" using sz by (auto simp: algebra_simps)
  finally show ?thesis .
qed

lemma chunk_loop_pos:
  assumes sz: "0 < sz"
  shows "chunk_loop arr (int sz) (int (sz * k)) out =
         Some (out @ map (\<lambda>j. take sz (drop (sz * j) arr)) [k..<(length arr + sz - 1) div sz])"
proof (induction "(length arr + sz - 1) div sz - k" arbitrary: k out)
  case 0
  then have le: "(length arr + sz - 1) div sz \<le> k" by simp
  then have "length arr \<le> sz * k" using ceil_div_le [OF sz, of "length arr" k] by blast
  then have "\<not> int (sz * k) < int (length arr)" by (simp del: of_nat_mult)
  with le show ?case
    by (subst chunk_loop.simps) (simp del: of_nat_mult)
next
  case (Suc n)
  then have lt: "\<not> (length arr + sz - 1) div sz \<le> k" by simp
  then have in_range: "sz * k < length arr" using ceil_div_le [OF sz, of "length arr" k] by auto
  have "js_slice arr (int (sz * k)) (int (sz * k) + int sz) = take sz (drop (sz * k) arr)"
    using js_slice_window [of "int (sz * k)" "int sz" arr] by (simp del: of_nat_mult)
  moreover have "int (sz * k) + int sz = int (sz * Suc k)" by (simp add: algebra_simps)
  moreover have "int (sz * k) < int (length arr)" using in_range by (simp del: of_nat_mult)
  ultimately have step: "chunk_loop arr (int sz) (int (sz * k)) out =
              chunk_loop arr (int sz) (int (sz * Suc k)) (out @ [take sz (drop (sz * k) arr)])"
    by (subst chunk_loop.simps) (simp del: of_nat_mult of_nat_Suc mult_Suc_right)
  have "n = (length arr + sz - 1) div sz - Suc k" using Suc.hyps(2) by simp
  from Suc.hyps(1) [OF this] step lt show ?case
    by (simp add: upt_conv_Cons)
qed

lemma chunk_pos:
  "0 < sz \<Longrightarrow> chunk arr (int sz) = Some (map (\<lambda>j. take sz (drop (sz * j) arr)) [0..<(length arr + sz - 1) div sz])"
  using chunk_loop_pos [of sz arr 0 "[]"] by (simp add: chunk_def)









section \<open>Properties of chunkText\<close>

lemma chunkText_loop_pos:
  assumes s: "0 < s" "int s = m - ov"
  shows "chunkText_loop text m ov (int (s * k)) acc =
         Some (acc @ filter (\<lambda>p. p \<noteq> [])
            (map (\<lambda>j. trim (js_slice text (int (s * j)) (int (s * j) + m))) [k..<(length text + s - 1) div s]))"
proof (induction "(length text + s - 1) div s - k" arbitrary: k acc)
  case 0
  then have le: "(length text + s - 1) div s \<le> k" by simp
  then have "length text \<le> s * k" using ceil_div_le [OF s(1), of "length text" k] by blast
  then have "\<not> int (s * k) < int (length text)" by (simp del: of_nat_mult)
  with le show ?case
    by (subst chunkText_loop.simps) (simp del: of_nat_mult)
next
  case (Suc n)
  then have lt: "\<not> (length text + s - 1) div s \<le> k" by simp
  then have "s * k < length text" using ceil_div_le [OF s(1), of "length text" k] by auto
  then have in_range: "int (s * k) < int (length text)" by (simp del: of_nat_mult)
  have next_i: "int (s * k) + (m - ov) = int (s * Suc k)" using s(2) by (simp add: algebra_simps)
  let ?piece = "trim (js_slice text (int (s * k)) (int (s * k) + m))"
  have step: "chunkText_loop text m ov (int (s * k)) acc =
              chunkText_loop text m ov (int (s * Suc k)) (if ?piece \<noteq> [] then acc @ [?piece] else acc)"
    using in_range next_i
    by (subst chunkText_loop.simps) (simp del: of_nat_mult of_nat_Suc mult_Suc_right)
  have "n = (length text + s - 1) div s - Suc k" using Suc.hyps(2) by simp
  from Suc.hyps(1) [OF this] step lt show ?case
    by (simp add: upt_conv_Cons del: of_nat_mult of_nat_Suc mult_Suc_right)
qed

text \<open>
  C5, amended. For every text and every pair with \<open>overlap < maxChars\<close> the chunker returns:
  it emits, in order, the trimmed windows \<open>text.slice(i, i + maxChars)\<close> at the offsets
  \<open>i = 0, step, 2 step, ...\<close> below the length of the text, \<open>step = maxChars - overlap\<close>,
  without those that trim to empty. For \<open>0 \<le> overlap\<close> two consecutive windows, before
  trimming, share the last \<open>overlap\<close> characters of the earlier one, fewer only where the
  text ends inside them; when \<open>overlap \<le> step\<close> that can only be the final window.
\<close>

theorem chunkText_windows:
  fixes src :: jsstring and maxChars overlap :: int
  assumes lt: "overlap < maxChars"
  defines "step \<equiv> nat (maxChars - overlap)"
  defines "n \<equiv> (length src + step - 1) div step"
  defines "window \<equiv> \<lambda>k. js_slice src (int (step * k)) (int (step * k) + maxChars)"
  shows "chunkText src maxChars overlap = Some (filter (\<lambda>p. p \<noteq> []) (map (\<lambda>k. trim (window k)) [0..<n])) \<and>
         (0 < maxChars \<longrightarrow> window k = take (nat maxChars) (drop (step * k) src)) \<and>
         (0 \<le> overlap \<longrightarrow>
            drop step (window k) = take (nat overlap) (window (Suc k)) \<and>
            length (take (nat overlap) (window (Suc k))) = min (nat overlap) (length src - step * Suc k)) \<and>
         (0 \<le> overlap \<and> overlap \<le> maxChars - overlap \<and> Suc (Suc k) < n \<longrightarrow>
            length (take (nat overlap) (window (Suc k))) = nat overlap)"
proof -
  have s: "0 < step" "int step = maxChars - overlap" using lt by (simp_all add: step_def)
  have res: "chunkText src maxChars overlap = Some (filter (\<lambda>p. p \<noteq> []) (map (\<lambda>k. trim (window k)) [0..<n]))"
    using chunkText_loop_pos [OF s, of src 0 "[]"] by (simp add: chunkText_def n_def window_def)
  have win: "window j = take (nat maxChars) (drop (step * j) src)" if "0 < maxChars" for j
    using js_slice_window [of "int (step * j)" maxChars src] that by (simp add: window_def del: of_nat_mult)
  have len: "length (take (nat overlap) (window (Suc k))) = min (nat overlap) (length src - step * Suc k)"
    if "0 \<le> overlap"
  proof -
    have "nat overlap \<le> nat maxChars" using lt that by simp
    then show ?thesis using win [of "Suc k"] lt that by (simp add: min_def)
  qed
  have share: "drop step (window k) = take (nat overlap) (window (Suc k))" if "0 \<le> overlap"
  proof -
    have m: "0 < maxChars" using lt that by simp
    have "nat maxChars - step = nat overlap" using lt that by (simp add: step_def)
    moreover have "min (nat overlap) (nat maxChars) = nat overlap" using lt that by simp
    moreover have "step + step * k = step * Suc k" by simp
    ultimately show ?thesis
      by (simp only: win [OF m] drop_take drop_drop take_take)
  qed
  have full: "length (take (nat overlap) (window (Suc k))) = nat overlap"
    if "0 \<le> overlap" "overlap \<le> maxChars - overlap" "Suc (Suc k) < n"
  proof -
    have "\<not> n \<le> Suc (Suc k)" using that(3) by simp
    then have "step * Suc (Suc k) < length src"
      using ceil_div_le [OF s(1), of "length src" "Suc (Suc k)"] by (auto simp: n_def)
    moreover have "nat overlap \<le> step" using that(1,2) by (simp add: step_def)
    ultimately have "nat overlap \<le> length src - step * Suc k" by simp
    with len [OF that(1)] show ?thesis by simp
  qed
  from res win share len full show ?thesis by blast
qed

text \<open>
  Ten letters in windows of 4 with overlap 1: offsets 0, 3, 6, 9, and each window starts
  with the last letter of the one before.
\<close>

theorem chunkText_windows_witness:
  "chunkText (js ''abcdefghij'') 4 1 = Some [js ''abcd'', js ''defg'', js ''ghij'', js ''j''] \<and>
   drop 3 (js ''abcd'') = take 1 (js ''defg'') \<and>
   length (take 1 (js ''ghij'')) = 1"
proof -
  have lt: "(1::int) < 4" by simp
  have w: "js_slice (js ''abcdefghij'') 0 4 = js ''abcd''" "js_slice (js ''abcdefghij'') 3 7 = js ''defg''"
     "js_slice (js ''abcdefghij'') 6 10 = js ''ghij''" "js_slice (js ''abcdefghij'') 9 13 = js ''j''"
    by (simp_all add: js_slice_def js_def)
  have t: "trim (js ''abcd'') = js ''abcd''" "trim (js ''defg'') = js ''defg''"
     "trim (js ''ghij'') = js ''ghij''" "trim (js ''j'') = js ''j''"
    by (simp_all add: trim_def js_def is_ws_def)
  have ne: "js ''abcd'' \<noteq> []" "js ''defg'' \<noteq> []" "js ''ghij'' \<noteq> []" "js ''j'' \<noteq> []"
    by (simp_all add: js_def)
  have len: "length (js ''abcdefghij'') = 10" by (simp add: js_def)
  have up: "[0..<4] = [0, 1, 2, 3]" by (simp add: upt_rec)
  note T0 = chunkText_windows [OF lt, of "js ''abcdefghij''" 0]
  note T1 = chunkText_windows [OF lt, of "js ''abcdefghij''" 1]
  have a: "chunkText (js ''abcdefghij'') 4 1 = Some [js ''abcd'', js ''defg'', js ''ghij'', js ''j'']"
    using T0 [THEN conjunct1] by (simp add: len up w t ne)
  have b: "drop 3 (js ''abcd'') = take 1 (js ''defg'')"
    using T0 [THEN conjunct2, THEN conjunct2, THEN conjunct1] by (simp add: len w)
  have c: "length (take 1 (js ''ghij'')) = 1"
    using T1 [THEN conjunct2, THEN conjunct2, THEN conjunct2] by (simp add: len w)
  from a b c show ?thesis by blast
qed

text \<open>
  C5 as stated fails for the emitted chunks: with windows of 4 and overlap 2 the text
  \<open>ab  cd\<close> gives the chunks \<open>ab\<close>, \<open>cd\<close>, \<open>cd\<close>; the first two are not the final
  pair, and the last two characters of the first are not the first two of the second,
  because trimming removed the blanks the two windows share.
\<close>

theorem chunkText_overlap_counterexample:
  "chunkText (js ''ab  cd'') 4 2 = Some [js ''ab'', js ''cd'', js ''cd''] \<and>
   js_slice (js ''ab'') (- 2) 2 \<noteq> js_slice (js ''cd'') 0 2"
  by (simp add: chunkText_def chunkText_loop.simps js_slice_def trim_def js_def is_ws_def)

section \<open>Properties of cleanUrl, isHttpUrl and scrapeText\<close>

lemma js_append: "js (a @ b) = js a @ js b"
  by (simp add: js_def)

lemma js_inject: "(js a = js b) = (a = b)"
  by (simp add: js_def inj_map_eq_map inj_on_def)

lemma strip_segments: "path u = Segments segs \<Longrightarrow> strip_trailing_spaces u = u"
  by (simp add: strip_trailing_spaces_def)

lemma update_segments:
  "path u = Segments segs \<Longrightarrow>
   searchParams_update P l u =
     u\<lparr>query := (if serialize_query P l = [] then None else Some (serialize_query P l))\<rparr>"
  by (simp add: searchParams_update_def strip_trailing_spaces_def)

lemma fold_strip:
  assumes "path v = Segments segs"
  shows "fold (\<lambda>k obj. if k \<in> S then searchParams_delete P k obj else obj) ks (v, l) =
         (if S \<inter> set ks = {} then v
          else searchParams_update P (filter (\<lambda>kv. fst kv \<notin> S \<inter> set ks) l) v,
          filter (\<lambda>kv. fst kv \<notin> S \<inter> set ks) l)"
  using assms
proof (induction ks arbitrary: v l)
  case Nil
  then show ?case by simp
next
  case (Cons k ks)
  show ?case
  proof (cases "k \<in> S")
    case False
    then have "S \<inter> set (k # ks) = S \<inter> set ks" by auto
    with False Cons.IH [OF Cons.prems, of l] show ?thesis by simp
  next
    case True
    let ?l1 = "filter (\<lambda>kv. fst kv \<noteq> k) l"
    let ?v1 = "searchParams_update P ?l1 v"
    have p1: "path ?v1 = Segments segs" using Cons.prems by (simp add: update_segments)
    have f: "filter (\<lambda>kv. fst kv \<notin> S \<inter> set ks) ?l1 = filter (\<lambda>kv. fst kv \<notin> S \<inter> set (k # ks)) l"
      using True by (auto intro: filter_cong)
    have upd: "searchParams_update P m ?v1 = searchParams_update P m v" for m
      using Cons.prems p1 by (simp add: update_segments)
    have "fold (\<lambda>k obj. if k \<in> S then searchParams_delete P k obj else obj) (k # ks) (v, l) =
          fold (\<lambda>k obj. if k \<in> S then searchParams_delete P k obj else obj) ks (?v1, ?l1)"
      using True by (simp add: searchParams_delete_def)
    also have "\<dots> = (if S \<inter> set ks = {} then ?v1
          else searchParams_update P (filter (\<lambda>kv. fst kv \<notin> S \<inter> set ks) ?l1) ?v1,
          filter (\<lambda>kv. fst kv \<notin> S \<inter> set ks) ?l1)"
      by (rule Cons.IH [OF p1])
    also have "\<dots> = (searchParams_update P (filter (\<lambda>kv. fst kv \<notin> S \<inter> set (k # ks)) l) v,
          filter (\<lambda>kv. fst kv \<notin> S \<inter> set (k # ks)) l)"
    proof (cases "S \<inter> set ks = {}")
      case True
      then have "filter (\<lambda>kv. fst kv \<notin> S \<inter> set ks) ?l1 = ?l1" by simp
      with f True show ?thesis by simp
    next
      case False
      with f upd show ?thesis by simp
    qed
    finally show ?thesis using True by auto
  qed
qed

lemma filter_own_keys:
  "filter (\<lambda>kv. fst kv \<notin> S \<inter> set (map fst l)) l = filter (\<lambda>kv. fst kv \<notin> S) l"
  by (rule filter_cong) auto

lemma no_keys_filter: "S \<inter> set (map fst l) = {} \<Longrightarrow> filter (\<lambda>kv. fst kv \<notin> S) l = l"
  by (induction l) auto

lemma strip_params_segments:
  assumes "path v = Segments segs"
  shows "strip_params P S v l =
         (if S \<inter> set (map fst l) = {} then v
          else searchParams_update P (filter (\<lambda>kv. fst kv \<notin> S) l) v)"
proof (cases "S = {}")
  case True
  then show ?thesis by (simp add: strip_params_def)
next
  case False
  have "fst (fold (\<lambda>k obj. if k \<in> S then searchParams_delete P k obj else obj) (map fst l) (v, l)) =
        (if S \<inter> set (map fst l) = {} then v
         else searchParams_update P (filter (\<lambda>kv. fst kv \<notin> S \<inter> set (map fst l)) l) v)"
    by (simp only: fold_strip [OF assms] fst_conv)
  then have "fst (fold (\<lambda>k obj. if k \<in> S then searchParams_delete P k obj else obj) (map fst l) (v, l)) =
        (if S \<inter> set (map fst l) = {} then v
         else searchParams_update P (filter (\<lambda>kv. fst kv \<notin> S) l) v)"
    by (simp only: filter_own_keys)
  with False show ?thesis by (simp only: strip_params_def if_True not_False_eq_True simp_thms)
qed

lemma rts_slash: "replace_trailing_slashes (js ''/'') = js ''/''"
  by (simp add: replace_trailing_slashes_def endsWith_def js_def)

lemma endsWith_slash: "endsWith s (js ''/'') = (s \<noteq> [] \<and> last s = 0x2F)"
proof (cases s rule: rev_cases)
  case Nil
  then show ?thesis by (simp add: endsWith_def js_def)
next
  case (snoc ys y)
  then show ?thesis by (auto simp: endsWith_def js_def)
qed

lemma rts_idem: "replace_trailing_slashes (replace_trailing_slashes s) = replace_trailing_slashes s"
proof (cases "endsWith s (js ''/'')")
  case False
  then show ?thesis by (simp add: replace_trailing_slashes_def)
next
  case True
  let ?core = "rev (dropWhile (\<lambda>c. c = 0x2F) (rev s))"
  have r: "replace_trailing_slashes s = ?core @ js ''/''" using True by (simp add: replace_trailing_slashes_def)
  have e: "endsWith (?core @ js ''/'') (js ''/'')" by (simp add: endsWith_def js_def)
  have "rev (dropWhile (\<lambda>c. c = 0x2F) (rev (?core @ js ''/''))) = ?core"
    by (simp add: js_def)
  with r e show ?thesis by (simp add: replace_trailing_slashes_def)
qed

lemma rts_other: "\<not> endsWith s (js ''/'') \<Longrightarrow> replace_trailing_slashes s = s"
  by (simp add: replace_trailing_slashes_def)

lemma clean_URL_segments:
  fixes P :: "'x platform" and S :: "jsstring set" and u :: url
  assumes seg: "path u = Segments segs"
  defines "lf \<equiv> filter (\<lambda>kv. fst kv \<notin> S) (searchParams P u)"
  defines "p \<equiv> url_pathname u"
  defines "u2 \<equiv> (if S \<inter> set (map fst (searchParams P u)) = {} then u\<lparr>fragment := None\<rparr>
                  else u\<lparr>fragment := None,
                         query := (if serialize_query P lf = [] then None else Some (serialize_query P lf))\<rparr>)"
  shows "clean_URL P S u =
         (if p \<noteq> js ''/'' \<and> endsWith p (js ''/'')
          then u2\<lparr>path := Segments (parse_path P (scheme u) (replace_trailing_slashes p))\<rparr>
          else u2)"
proof -
  have c: "clear_hash u = u\<lparr>fragment := None\<rparr>"
    using seg by (simp add: clear_hash_def strip_trailing_spaces_def)
  have "path (u\<lparr>fragment := None\<rparr>) = Segments segs" using seg by simp
  from strip_params_segments [OF this, of P S "searchParams P u"]
  have s: "strip_params P S (clear_hash u) (searchParams P u) = u2"
    using seg by (simp add: c u2_def lf_def update_segments)
  have "path u2 = Segments segs" "url_pathname u2 = p" "scheme u2 = scheme u"
    using seg by (simp_all add: u2_def p_def url_pathname_def)
  then show ?thesis
    by (simp add: clean_URL_def s collapse_slashes_def set_pathname_def)
qed

text \<open>
  C7, amended. On an address that parses to a URL with a path of segments (every HTTP(S)
  address does), and where the platform's parsers read back what its serializers wrote
  for this address, \<open>cleanUrl\<close> is idempotent; it removes the fragment, removes every
  query parameter whose name is in the strip set and keeps the others, with their values
  and in their order; scheme, credentials, host and port stay; the path stays except that
  a run of slashes at its end becomes one slash.
\<close>

theorem cleanUrl_idempotent:
  fixes P :: "'x platform"
  assumes parse: "new_URL P x = Some u"
    and seg: "path u = Segments segs"
    and query_rt: "parse_query P (serialize_query P (filter (\<lambda>kv. fst kv \<notin> S) (searchParams P u))) =
                   filter (\<lambda>kv. fst kv \<notin> S) (searchParams P u)"
    and path_rt: "serialize_path (Segments (parse_path P (scheme u) (replace_trailing_slashes (url_pathname u)))) =
                  replace_trailing_slashes (url_pathname u)"
    and href_rt: "new_URL P (url_href (clean_URL P S u)) = Some (clean_URL P S u)"
  shows "cleanUrl P x S = Inr (url_href (clean_URL P S u)) \<and>
         cleanUrl P (url_href (clean_URL P S u)) S = Inr (url_href (clean_URL P S u)) \<and>
         fragment (clean_URL P S u) = None \<and>
         searchParams P (clean_URL P S u) = filter (\<lambda>kv. fst kv \<notin> S) (searchParams P u) \<and>
         url_pathname (clean_URL P S u) = replace_trailing_slashes (url_pathname u) \<and>
         scheme (clean_URL P S u) = scheme u \<and> username (clean_URL P S u) = username u \<and>
         password (clean_URL P S u) = password u \<and> host (clean_URL P S u) = host u \<and>
         port (clean_URL P S u) = port u"
proof -
  define lf where "lf = filter (\<lambda>kv. fst kv \<notin> S) (searchParams P u)"
  define p where "p = url_pathname u"
  define u2 where "u2 = (if S \<inter> set (map fst (searchParams P u)) = {} then u\<lparr>fragment := None\<rparr>
                  else u\<lparr>fragment := None,
                         query := (if serialize_query P lf = [] then None else Some (serialize_query P lf))\<rparr>)"
  define u3 where "u3 = clean_URL P S u"
  have u3: "u3 = (if p \<noteq> js ''/'' \<and> endsWith p (js ''/'')
          then u2\<lparr>path := Segments (parse_path P (scheme u) (replace_trailing_slashes p))\<rparr>
          else u2)"
    unfolding u3_def u2_def lf_def p_def by (rule clean_URL_segments [OF seg])
  have frag: "fragment u3 = None" by (simp add: u3 u2_def)
  have same: "scheme u3 = scheme u" "username u3 = username u" "password u3 = password u"
    "host u3 = host u" "port u3 = port u"
    by (simp_all add: u3 u2_def)
  have sp2: "searchParams P u2 = lf"
  proof (cases "S \<inter> set (map fst (searchParams P u)) = {}")
    case True
    then show ?thesis by (simp add: u2_def searchParams_def lf_def no_keys_filter [OF True, unfolded searchParams_def])
  next
    case False
    have "parse_query P (serialize_query P lf) = lf" using query_rt by (simp add: lf_def)
    with False show ?thesis by (auto simp: u2_def searchParams_def)
  qed
  have sp3: "searchParams P u3 = lf" using sp2 by (simp add: u3 searchParams_def)
  have pn2: "url_pathname u2 = p" by (simp add: u2_def p_def url_pathname_def)
  have pn3: "url_pathname u3 = replace_trailing_slashes p"
  proof (cases "p \<noteq> js ''/'' \<and> endsWith p (js ''/'')")
    case True
    then show ?thesis using path_rt by (simp add: u3 url_pathname_def p_def)
  next
    case False
    then have "replace_trailing_slashes p = p" using rts_slash rts_other by auto
    moreover from False have "u3 = u2" by (simp only: u3 if_False)
    ultimately show ?thesis using pn2 by simp
  qed
  obtain segs3 where seg3: "path u3 = Segments segs3"
    using seg by (cases "p \<noteq> js ''/'' \<and> endsWith p (js ''/'')") (simp_all add: u3 u2_def)
  have nokeys: "S \<inter> set (map fst lf) = {}" by (auto simp: lf_def)
  have again: "clean_URL P S u3 = u3"
  proof -
    have lf3: "filter (\<lambda>kv. fst kv \<notin> S) (searchParams P u3) = lf" by (simp add: sp3 lf_def)
    have f3: "u3\<lparr>fragment := None\<rparr> = u3" using frag by simp
    have "clean_URL P S u3 =
         (if url_pathname u3 \<noteq> js ''/'' \<and> endsWith (url_pathname u3) (js ''/'')
          then u3\<lparr>path := Segments (parse_path P (scheme u3) (replace_trailing_slashes (url_pathname u3)))\<rparr>
          else u3)"
      using clean_URL_segments [OF seg3, where S = S and P = P] nokeys by (simp add: sp3 f3)
    also have "\<dots> = u3"
    proof (cases "p \<noteq> js ''/'' \<and> endsWith p (js ''/'')")
      case True
      then have "path u3 = Segments (parse_path P (scheme u) (replace_trailing_slashes p))"
        by (simp add: u3)
      then have "u3\<lparr>path := Segments (parse_path P (scheme u) (replace_trailing_slashes p))\<rparr> = u3"
        by simp
      then show ?thesis by (simp add: pn3 rts_idem same)
    next
      case False
      then have "replace_trailing_slashes p = p" using rts_slash rts_other by auto
      with False show ?thesis by (auto simp: pn3)
    qed
    finally show ?thesis .
  qed
  have first: "cleanUrl P x S = Inr (url_href u3)" using parse by (simp add: cleanUrl_def u3_def)
  have second: "cleanUrl P (url_href u3) S = Inr (url_href u3)"
    using href_rt again by (simp add: cleanUrl_def u3_def)
  from first second frag sp3 pn3 same show ?thesis
    unfolding u3_def lf_def p_def by simp
qed

text \<open>
  C8, amended. \<open>cleanUrl\<close> throws exactly when \<open>new URL\<close> rejects its input, whatever the
  scheme. The HTTP(S) check is \<open>isHttpUrl\<close>, true exactly for the inputs that parse with
  scheme \<open>http\<close> or \<open>https\<close>; the callers apply it first: for every other input
  \<open>scrapeText\<close> throws and the crawl and scrape handlers answer 400.
\<close>

theorem cleanUrl_throws_iff_unparsable:
  fixes P :: "'x platform"
  shows "((\<exists>e. cleanUrl P u S = Inl e) = (new_URL P u = None)) \<and>
         (cleanUrl P u S = Inl TypeError) = (new_URL P u = None) \<and>
         isHttpUrl P u = (\<exists>url. new_URL P u = Some url \<and> (scheme url = js ''http'' \<or> scheme url = js ''https'')) \<and>
         (\<not> isHttpUrl P u \<longrightarrow>
            scrapeText P u w = (Inl InvalidScrapeUrl, w) \<and>
            scrape_route P (Str u) w = (Status400, w) \<and>
            (b_startUrl body = Str u \<longrightarrow> ingest_crawl P body w = Some (BadRequest, w)))"
proof -
  have a: "(\<exists>e. cleanUrl P u S = Inl e) = (new_URL P u = None)"
    by (cases "new_URL P u") (simp_all add: cleanUrl_def)
  have b: "(cleanUrl P u S = Inl TypeError) = (new_URL P u = None)"
    by (cases "new_URL P u") (simp_all add: cleanUrl_def)
  have colon: "js ''http:'' = js ''http'' @ js '':''" "js ''https:'' = js ''https'' @ js '':''"
    by (simp_all add: js_def)
  have c: "isHttpUrl P u = (\<exists>url. new_URL P u = Some url \<and> (scheme url = js ''http'' \<or> scheme url = js ''https''))"
    by (cases "new_URL P u") (simp_all add: isHttpUrl_def url_protocol_def colon)
  have d: "\<not> isHttpUrl P u \<longrightarrow>
            scrapeText P u w = (Inl InvalidScrapeUrl, w) \<and>
            scrape_route P (Str u) w = (Status400, w) \<and>
            (b_startUrl body = Str u \<longrightarrow> ingest_crawl P body w = Some (BadRequest, w))"
    by (simp add: scrapeText_def scrape_route_def ingest_crawl_def)
  from a b c d show ?thesis by blast
qed

text \<open>
  C4, amended. \<open>scrapeText\<close> returns the text of the fast path when that has at least 200
  code units, and otherwise whatever the rendering fallback returns or throws. The
  fallback returns the cleaned page source when the visible text is not longer than 200,
  also when that is the empty string: \<open>scrapeText\<close> has no error for empty content. The
  check is made by the \<open>/scrape\<close> handler, which answers 422 for a text that is empty after
  trimming.
\<close>

theorem scrapeText_result:
  fixes P :: "'x platform"
  shows "(u \<noteq> [] \<and> isHttpUrl P u \<and> cleanUrl P u DEFAULT_STRIP_PARAMS = Inr v \<and>
          fetchViaHttp P v w = (Inr t, w1) \<and> 200 \<le> length t \<longrightarrow>
            scrapeText P u w = (Inr t, w1)) \<and>
         (u \<noteq> [] \<and> isHttpUrl P u \<and> cleanUrl P u DEFAULT_STRIP_PARAMS = Inr v \<and>
          fetchViaHttp P v w = (r, w1) \<and> (\<forall>t. r = Inr t \<longrightarrow> length t < 200) \<longrightarrow>
            scrapeText P u w = fetchViaBrowser P v w1) \<and>
         (render_page P v (ext w1) = (Inr page, x2) \<and>
          length (collapse_ws False (trim (innerText page))) \<le> 200 \<and> content page = Inr html \<longrightarrow>
            fetchViaBrowser P v w1 = (Inr (cleanText html), w1\<lparr>ext := x2, trace := trace w1 @ [BrowserLoad v]\<rparr>)) \<and>
         (s \<noteq> [] \<and> isHttpUrl P s \<and> cleanUrl P s DEFAULT_STRIP_PARAMS = Inr u \<and>
          scrapeText P u w = (Inr t, w1) \<and> trim t = [] \<longrightarrow>
            scrape_route P (Str s) w = (NoContent422 u, w1))"
proof (intro conjI impI)
  assume "u \<noteq> [] \<and> isHttpUrl P u \<and> cleanUrl P u DEFAULT_STRIP_PARAMS = Inr v \<and>
          fetchViaHttp P v w = (Inr t, w1) \<and> 200 \<le> length t"
  then show "scrapeText P u w = (Inr t, w1)"
    by (auto simp: scrapeText_def)
next
  assume a: "u \<noteq> [] \<and> isHttpUrl P u \<and> cleanUrl P u DEFAULT_STRIP_PARAMS = Inr v \<and>
          fetchViaHttp P v w = (r, w1) \<and> (\<forall>t. r = Inr t \<longrightarrow> length t < 200)"
  then show "scrapeText P u w = fetchViaBrowser P v w1"
    by (cases r) (auto simp: scrapeText_def)
next
  assume "render_page P v (ext w1) = (Inr page, x2) \<and>
          length (collapse_ws False (trim (innerText page))) \<le> 200 \<and> content page = Inr html"
  then show "fetchViaBrowser P v w1 = (Inr (cleanText html), w1\<lparr>ext := x2, trace := trace w1 @ [BrowserLoad v]\<rparr>)"
    by (simp add: fetchViaBrowser_def perform_def)
next
  assume "s \<noteq> [] \<and> isHttpUrl P s \<and> cleanUrl P s DEFAULT_STRIP_PARAMS = Inr u \<and>
          scrapeText P u w = (Inr t, w1) \<and> trim t = []"
  then show "scrape_route P (Str s) w = (NoContent422 u, w1)"
    by (simp add: scrape_route_def)
qed

section \<open>The crawl loop: termination and what it keeps true\<close>

lemma chunkText_total: "\<exists>cs. chunkText body 1200 150 = Some cs"
  using chunkText_loop_pos [of 1050 1200 150 body 0 "[]"] by (simp add: chunkText_def)

lemma upsertVectors_total: "\<exists>r w'. upsertVectors P vs ns w = Some (r, w')"
proof -
  obtain bs where "chunk vs 100 = Some bs" using chunk_pos [of 100 vs] by simp
  then show ?thesis
    by (cases "upsert_batches P (getIndexForNamespace P ns) bs 0 w")
       (simp add: upsertVectors_def split: option.splits)
qed

lemma ingest_page_total: "\<exists>r w'. ingest_page P cfg u t body c w = Some (r, w')"
proof -
  obtain cs where cs: "chunkText body 1200 150 = Some cs" using chunkText_total by blast
  show ?thesis
  proof (cases "cs = []")
    case True
    with cs show ?thesis by (simp add: ingest_page_def)
  next
    case False
    obtain r1 w1 where e: "embedTexts P cs w = (r1, w1)" by (cases "embedTexts P cs w")
    show ?thesis
    proof (cases r1)
      case (Inl err)
      with cs False e show ?thesis by (simp add: ingest_page_def)
    next
      case (Inr embeddings)
      obtain now x2 where n: "date_now P (ext w1) = (now, x2)" by (cases "date_now P (ext w1)")
      show ?thesis
      proof (cases "length cs < length embeddings")
        case True
        with cs False e Inr n show ?thesis by (simp add: ingest_page_def)
      next
        case long: False
        obtain r w' where "upsertVectors P (build_vectors now c u t cs embeddings) (namespace cfg) (w1\<lparr>ext := x2\<rparr>) = Some (r, w')"
          using upsertVectors_total by blast
        with cs False e Inr n long show ?thesis by (simp add: ingest_page_def)
      qed
    qed
  qed
qed

lemma links_state:
  fixes st :: crawl_state and P :: "'x platform" and html u :: jsstring and cfg :: crawl_cfg and d :: int
  defines "st1 \<equiv> (case discoverLinks P html u True (pathPrefix cfg) of Inl e \<Rightarrow> st | Inr links \<Rightarrow> enqueue st d links)"
  shows "seen st1 = seen st" "visited st1 = visited st" "crawled st1 = crawled st" "upserted st1 = upserted st"
    "\<exists>ls. q st1 = q st @ map (\<lambda>l. (l, d + 1)) ls"
proof -
  show "seen st1 = seen st" "visited st1 = visited st" "crawled st1 = crawled st" "upserted st1 = upserted st"
    by (simp_all add: st1_def enqueue_def split: sum.splits)
  show "\<exists>ls. q st1 = q st @ map (\<lambda>l. (l, d + 1)) ls"
  proof (cases "discoverLinks P html u True (pathPrefix cfg)")
    case (Inl e)
    then have "q st1 = q st @ map (\<lambda>l. (l, d + 1)) []" by (simp add: st1_def)
    then show ?thesis by blast
  next
    case (Inr links)
    then show ?thesis by (auto simp: st1_def enqueue_def)
  qed
qed

lemma crawl_page_shape:
  "\<exists>st' w' ls oc. crawl_page P cfg u d st w = Some (st', w') \<and> seen st' = seen st \<and>
      q st' = q st @ map (\<lambda>l. (l, d + 1)) ls \<and>
      visited st' = visited st @ [(u, d, oc)] \<and>
      crawled st' = crawled st + (if counted (u, d, oc) then 1 else 0)"
proof -
  obtain r1 w1 where f: "fetchHtml P u w = (r1, w1)" by (cases "fetchHtml P u w")
  show ?thesis
  proof (cases r1)
    case (Inl e)
    have "q st = q st @ map (\<lambda>l. (l, d + 1)) []" by simp
    with f Inl show ?thesis
      by (simp add: crawl_page_def counted_def)
  next
    case (Inr html)
    let ?st1 = "case discoverLinks P html u True (pathPrefix cfg) of Inl e \<Rightarrow> st | Inr links \<Rightarrow> enqueue st d links"
    note L = links_state [where P = P and html = html and u = u and cfg = cfg and st = st and d = d]
    from L(5) obtain ls where ls: "q ?st1 = q st @ map (\<lambda>l. (l, d + 1)) ls" by blast
    obtain r2 w2 where s: "scrapeText P u w1 = (r2, w2)" by (cases "scrapeText P u w1")
    show ?thesis
    proof (cases r2)
      case (Inl e)
      with f Inr s have "crawl_page P cfg u d st w = Some (?st1\<lparr>visited := visited st @ [(u, d, ScrapeFailed)]\<rparr>, w2)"
        by (simp add: crawl_page_def)
      with L(1,3) ls show ?thesis by (simp add: counted_def) blast
    next
      case body: (Inr body)
      obtain r w3 where i: "ingest_page P cfg u (page_title P cfg html) body (crawled st) w2 = Some (r, w3)"
        using ingest_page_total by blast
      let ?oc = "case r of Inl e \<Rightarrow> IngestFailed | Inr n \<Rightarrow> Ingested"
      from f Inr s body i have "crawl_page P cfg u d st w =
          Some (?st1\<lparr>upserted := (case r of Inl e \<Rightarrow> upserted st | Inr n \<Rightarrow> upserted st + n),
                      crawled := crawled st + 1,
                      visited := visited st @ [(u, d, ?oc)]\<rparr>,
                if delayMs cfg \<noteq> 0 then sleep (Num (of_int (delayMs cfg))) w3 else w3)"
        by (simp add: crawl_page_def)
      moreover have "counted (u, d, ?oc)" by (simp add: counted_def split: sum.splits)
      ultimately show ?thesis using L(1) ls by simp blast
    qed
  qed
qed

lemma crawl_loop_exit:
  "\<not> (q st \<noteq> [] \<and> crawled st < maxPages cfg) \<Longrightarrow> crawl_loop P cfg st w = Some (st, w)"
  by (subst crawl_loop.simps) auto

lemma crawl_loop_skip:
  "q st = (u, d) # rest \<Longrightarrow> crawled st < maxPages cfg \<Longrightarrow> u \<in> seen st \<or> maxDepth cfg < d \<Longrightarrow>
   crawl_loop P cfg st w = crawl_loop P cfg (st\<lparr>q := rest\<rparr>) w"
  by (subst crawl_loop.simps) auto

lemma crawl_loop_visit:
  "q st = (u, d) # rest \<Longrightarrow> crawled st < maxPages cfg \<Longrightarrow> u \<notin> seen st \<Longrightarrow> d \<le> maxDepth cfg \<Longrightarrow>
   crawl_page P cfg u d (st\<lparr>q := rest, seen := insert u (seen st)\<rparr>) w = Some (st2, w2) \<Longrightarrow>
   crawl_loop P cfg st w = crawl_loop P cfg st2 w2"
  by (subst crawl_loop.simps) auto

lemma crawl_loop_inv:
  fixes P :: "'x platform" and W :: "'x world \<Rightarrow> bool"
  assumes step: "\<And>u d s x s' x'. W x \<Longrightarrow> crawl_page P cfg u d s x = Some (s', x') \<Longrightarrow> W x'"
  shows "crawl_inv cfg st \<Longrightarrow> W w \<Longrightarrow>
         \<exists>st' w'. crawl_loop P cfg st w = Some (st', w') \<and> crawl_inv cfg st' \<and> W w' \<and> seen st \<subseteq> seen st'"
proof -
  define slack where "slack = (\<lambda>d. nat (maxDepth cfg + 1 - d))"
  define \<mu> where "\<mu> = (\<lambda>s :: crawl_state. mset (map (\<lambda>t. slack (snd t)) (q s)))"
  have wf: "wf (inv_image (mult less_than) \<mu>)"
    by (intro wf_inv_image wf_mult wf_less_than)
  show "crawl_inv cfg st \<Longrightarrow> W w \<Longrightarrow>
         \<exists>st' w'. crawl_loop P cfg st w = Some (st', w') \<and> crawl_inv cfg st' \<and> W w' \<and> seen st \<subseteq> seen st'"
    using wf
  proof (induction st arbitrary: w rule: wf_induct_rule)
    case (less st)
    show ?case
    proof (cases "q st \<noteq> [] \<and> crawled st < maxPages cfg")
      case False
      then have "crawl_loop P cfg st w = Some (st, w)" by (rule crawl_loop_exit)
      with less.prems show ?thesis by simp
    next
      case True
      then obtain u d rest where qs: "q st = (u, d) # rest" by (cases "q st") auto
      from True have lt: "crawled st < maxPages cfg" by simp
      show ?thesis
      proof (cases "u \<in> seen st \<or> maxDepth cfg < d")
        case skip: True
        let ?s = "st\<lparr>q := rest\<rparr>"
        have "(\<mu> ?s + {#}, \<mu> ?s + {#slack d#}) \<in> mult less_than"
          by (rule one_step_implies_mult) simp_all
        then have dec: "(?s, st) \<in> inv_image (mult less_than) \<mu>"
          by (simp add: \<mu>_def qs)
        have inv': "crawl_inv cfg ?s" using less.prems(1) by (simp add: crawl_inv_def)
        from less.IH [OF dec inv' less.prems(2)] obtain st' w' where
          "crawl_loop P cfg ?s w = Some (st', w')" "crawl_inv cfg st'" "W w'" "seen ?s \<subseteq> seen st'"
          by blast
        moreover have "crawl_loop P cfg st w = crawl_loop P cfg ?s w"
          using qs lt skip by (rule crawl_loop_skip)
        ultimately show ?thesis by simp
      next
        case go: False
        then have new: "u \<notin> seen st" and depth: "d \<le> maxDepth cfg" by auto
        let ?s0 = "st\<lparr>q := rest, seen := insert u (seen st)\<rparr>"
        obtain s2 w2 ls oc where page: "crawl_page P cfg u d ?s0 w = Some (s2, w2)"
          and seen2: "seen s2 = seen ?s0" and q2: "q s2 = q ?s0 @ map (\<lambda>l. (l, d + 1)) ls"
          and vis2: "visited s2 = visited ?s0 @ [(u, d, oc)]"
          and cr2: "crawled s2 = crawled ?s0 + (if counted (u, d, oc) then 1 else 0)"
          using crawl_page_shape [of P cfg u d ?s0 w] by blast
        have "slack (d + 1) < slack d" using depth by (simp add: slack_def)
        then have "\<forall>k \<in> set_mset (mset (map (\<lambda>l. slack (d + 1)) ls)). \<exists>j \<in> set_mset {#slack d#}. (k, j) \<in> less_than"
          by simp
        then have "(mset (map (\<lambda>t. slack (snd t)) rest) + mset (map (\<lambda>l. slack (d + 1)) ls),
               mset (map (\<lambda>t. slack (snd t)) rest) + {#slack d#}) \<in> mult less_than"
          by (intro one_step_implies_mult) simp_all
        moreover have "map (\<lambda>t. slack (snd t)) (map (\<lambda>l. (l, d + 1)) ls) = map (\<lambda>l. slack (d + 1)) ls"
          by simp
        then have "\<mu> s2 = mset (map (\<lambda>t. slack (snd t)) rest) + mset (map (\<lambda>l. slack (d + 1)) ls)"
          by (simp add: \<mu>_def q2 del: mset_map map_map)
        moreover have "\<mu> st = mset (map (\<lambda>t. slack (snd t)) rest) + {#slack d#}"
          by (simp add: \<mu>_def qs)
        ultimately have dec: "(s2, st) \<in> inv_image (mult less_than) \<mu>"
          by (simp only: in_inv_image)
        have inv2: "crawl_inv cfg s2"
        proof -
          from less.prems(1) have a: "fst ` set (visited st) \<subseteq> seen st" and b: "distinct (map fst (visited st))"
            and c: "list_all (\<lambda>v. fst (snd v) \<le> maxDepth cfg) (visited st)"
            and e: "crawled st = int (length (filter counted (visited st)))"
            by (simp_all add: crawl_inv_def)
          from a new have "u \<notin> fst ` set (visited st)" by blast
          with a b c e depth lt show ?thesis
            by (auto simp: crawl_inv_def seen2 vis2 cr2)
        qed
        have W2: "W w2" using step [OF less.prems(2) page] .
        from less.IH [OF dec inv2 W2] obtain st' w' where
          "crawl_loop P cfg s2 w2 = Some (st', w')" "crawl_inv cfg st'" "W w'" "seen s2 \<subseteq> seen st'"
          by blast
        moreover have "crawl_loop P cfg st w = crawl_loop P cfg s2 w2"
          using qs lt new depth page by (rule crawl_loop_visit)
        ultimately show ?thesis using seen2 by auto
      qed
    qed
  qed
qed

lemma ns_perform:
  "perform ev f w = (r, w') \<Longrightarrow>
   upsert_namespaces w' = upsert_namespaces w @ (case ev of UpsertCall ns b \<Rightarrow> [ns] | _ \<Rightarrow> [])"
  by (auto simp: perform_def upsert_namespaces_def split: prod.splits)

lemma ns_sleep: "upsert_namespaces (sleep ms w) = upsert_namespaces w"
  by (simp add: sleep_def upsert_namespaces_def)

lemma ns_ext: "upsert_namespaces (w\<lparr>ext := x\<rparr>) = upsert_namespaces w"
  by (simp add: upsert_namespaces_def)

lemma ns_retry_pause: "upsert_namespaces (retry_pause rnd b j cb attempt err w) = upsert_namespaces w"
  by (cases "rnd (ext w)"; cases cb; cases j)
     (simp_all add: retry_pause_def retry_delay_def ns_sleep ns_ext)

lemma ns_withRetry_loop:
  "(\<And>x r x'. fn x = (r, x') \<Longrightarrow> set (upsert_namespaces x') \<subseteq> insert n (set (upsert_namespaces x))) \<Longrightarrow>
   withRetry_loop rnd fn t b j cb attempt lastErr w = (r, w') \<Longrightarrow>
   set (upsert_namespaces w') \<subseteq> insert n (set (upsert_namespaces w))"
proof (induction rnd fn t b j cb attempt lastErr w rule: withRetry_loop.induct)
  case (1 rnd fn t b j cb attempt lastErr w)
  show ?case
  proof (cases "attempt \<le> t")
    case False
    with "1.prems" show ?thesis by (auto simp: withRetry_loop.simps)
  next
    case True
    obtain r1 w1 where f: "fn w = (r1, w1)" by (cases "fn w")
    from "1.prems"(1) [OF f] have s1: "set (upsert_namespaces w1) \<subseteq> insert n (set (upsert_namespaces w))" .
    show ?thesis
    proof (cases r1)
      case (Inr v)
      with True f "1.prems"(2) have "w' = w1" by (simp add: withRetry_loop.simps)
      with s1 show ?thesis by simp
    next
      case (Inl err)
      let ?w2 = "if attempt < t then retry_pause rnd b j cb attempt err w1 else w1"
      from True f Inl "1.prems"(2)
      have "withRetry_loop rnd fn t b j cb (attempt + 1) err ?w2 = (r, w')"
        by (simp add: withRetry_loop.simps [of rnd fn t b j cb attempt])
      from "1.IH" [OF True f [symmetric] Inl "1.prems"(1) this]
      have "set (upsert_namespaces w') \<subseteq> insert n (set (upsert_namespaces ?w2))" by simp
      moreover have "upsert_namespaces ?w2 = upsert_namespaces w1" by (simp add: ns_retry_pause)
      ultimately show ?thesis using s1 by auto
    qed
  qed
qed

lemma ns_upsert_batches:
  "upsert_batches P idx bs tot w = (r, w') \<Longrightarrow>
   set (upsert_namespaces w') \<subseteq> insert idx (set (upsert_namespaces w))"
proof (induction bs arbitrary: tot w)
  case Nil
  then show ?case by auto
next
  case (Cons b bs)
  obtain r1 w1 where wr: "withRetry (math_random P) (perform (UpsertCall idx b) (index_upsert P idx b)) upsert_opts w = (r1, w1)"
    by (cases "withRetry (math_random P) (perform (UpsertCall idx b) (index_upsert P idx b)) upsert_opts w")
  have "set (upsert_namespaces w1) \<subseteq> insert idx (set (upsert_namespaces w))"
  proof (rule ns_withRetry_loop [OF _ wr [unfolded withRetry_def]])
    fix x :: "'a world" and r x'
    assume "perform (UpsertCall idx b) (index_upsert P idx b) x = (r, x')"
    from ns_perform [OF this] show "set (upsert_namespaces x') \<subseteq> insert idx (set (upsert_namespaces x))"
      by auto
  qed
  moreover have "set (upsert_namespaces w') \<subseteq> insert idx (set (upsert_namespaces w1))"
  proof (cases r1)
    case (Inl e)
    with Cons.prems wr show ?thesis by auto
  next
    case (Inr v)
    with Cons.prems wr have "upsert_batches P idx bs (tot + int (length b)) w1 = (r, w')" by simp
    from Cons.IH [OF this] show ?thesis .
  qed
  ultimately show ?case by auto
qed

lemma ns_upsertVectors:
  "upsertVectors P vs ns w = Some (r, w') \<Longrightarrow>
   set (upsert_namespaces w') \<subseteq> insert (getIndexForNamespace P ns) (set (upsert_namespaces w))"
  using ns_upsert_batches [of P "getIndexForNamespace P ns" _ 0 w r w']
  by (auto simp: upsertVectors_def split: if_splits option.splits)

lemma ns_embedTexts: "embedTexts P texts w = (r, w') \<Longrightarrow> upsert_namespaces w' = upsert_namespaces w"
  using ns_perform [of "EmbedCall texts" "embeddings_create P texts" w r w']
  by (auto simp: embedTexts_def split: if_splits)

lemma ns_ingest_page:
  assumes "ingest_page P cfg u t body c w = Some (r, w')"
  shows "set (upsert_namespaces w') \<subseteq> insert (getIndexForNamespace P (namespace cfg)) (set (upsert_namespaces w))"
proof -
  obtain cs where cs: "chunkText body 1200 150 = Some cs" using chunkText_total by blast
  show ?thesis
  proof (cases "cs = []")
    case True
    with cs assms show ?thesis by (auto simp: ingest_page_def)
  next
    case False
    obtain r1 w1 where e: "embedTexts P cs w = (r1, w1)" by (cases "embedTexts P cs w")
    note n1 = ns_embedTexts [OF e]
    show ?thesis
    proof (cases r1)
      case (Inl err)
      with cs False e assms n1 show ?thesis by (auto simp: ingest_page_def)
    next
      case (Inr embeddings)
      obtain now x2 where n: "date_now P (ext w1) = (now, x2)" by (cases "date_now P (ext w1)")
      show ?thesis
      proof (cases "length cs < length embeddings")
        case True
        with cs False e Inr n assms n1 show ?thesis by (auto simp: ingest_page_def ns_ext)
      next
        case long: False
        with cs False e Inr n assms
        have "upsertVectors P (build_vectors now c u t cs embeddings) (namespace cfg) (w1\<lparr>ext := x2\<rparr>) = Some (r, w')"
          by (simp add: ingest_page_def)
        from ns_upsertVectors [OF this] n1 show ?thesis by (simp add: ns_ext)
      qed
    qed
  qed
qed

lemma ns_fetchHtml: "fetchHtml P u w = (r, w') \<Longrightarrow> upsert_namespaces w' = upsert_namespaces w"
proof -
  assume a: "fetchHtml P u w = (r, w')"
  obtain r1 w1 where p: "perform (HttpGet u) (fetch P u) w = (r1, w1)" by (cases "perform (HttpGet u) (fetch P u) w")
  from ns_perform [OF p] have "upsert_namespaces w1 = upsert_namespaces w" by simp
  moreover from a p have "w' = w1" by (auto simp: fetchHtml_def split: sum.splits if_splits)
  ultimately show ?thesis by simp
qed

lemma ns_fetchViaHttp: "fetchViaHttp P u w = (r, w') \<Longrightarrow> upsert_namespaces w' = upsert_namespaces w"
proof -
  assume a: "fetchViaHttp P u w = (r, w')"
  obtain r1 w1 where p: "perform (HttpGet u) (fetch P u) w = (r1, w1)" by (cases "perform (HttpGet u) (fetch P u) w")
  from ns_perform [OF p] have "upsert_namespaces w1 = upsert_namespaces w" by simp
  moreover from a p have "w' = w1" by (auto simp: fetchViaHttp_def split: sum.splits if_splits)
  ultimately show ?thesis by simp
qed

lemma ns_fetchViaBrowser: "fetchViaBrowser P u w = (r, w') \<Longrightarrow> upsert_namespaces w' = upsert_namespaces w"
proof -
  assume a: "fetchViaBrowser P u w = (r, w')"
  obtain r1 w1 where p: "perform (BrowserLoad u) (render_page P u) w = (r1, w1)"
    by (cases "perform (BrowserLoad u) (render_page P u) w")
  from ns_perform [OF p] have "upsert_namespaces w1 = upsert_namespaces w" by simp
  moreover from a p have "w' = w1" by (auto simp: fetchViaBrowser_def split: sum.splits if_splits)
  ultimately show ?thesis by simp
qed

lemma ns_scrapeText: "scrapeText P u w = (r, w') \<Longrightarrow> upsert_namespaces w' = upsert_namespaces w"
proof -
  assume a: "scrapeText P u w = (r, w')"
  show ?thesis
  proof (cases "u = [] \<or> \<not> isHttpUrl P u")
    case True
    with a show ?thesis by (auto simp: scrapeText_def)
  next
    case False
    show ?thesis
    proof (cases "cleanUrl P u DEFAULT_STRIP_PARAMS")
      case (Inl e)
      with False a show ?thesis by (auto simp: scrapeText_def)
    next
      case (Inr v)
      obtain r1 w1 where h: "fetchViaHttp P v w = (r1, w1)" by (cases "fetchViaHttp P v w")
      note n1 = ns_fetchViaHttp [OF h]
      show ?thesis
      proof (cases "\<exists>t. r1 = Inr t \<and> t \<noteq> [] \<and> 200 \<le> length t")
        case True
        with False Inr h a have "w' = w1" by (auto simp: scrapeText_def)
        with n1 show ?thesis by simp
      next
        case no: False
        with False Inr h a have "fetchViaBrowser P v w1 = (r, w')"
          by (cases r1) (auto simp: scrapeText_def split: if_splits)
        from ns_fetchViaBrowser [OF this] n1 show ?thesis by simp
      qed
    qed
  qed
qed

lemma ns_crawl_page:
  assumes "crawl_page P cfg u d st w = Some (st', w')"
  shows "set (upsert_namespaces w') \<subseteq> insert (getIndexForNamespace P (namespace cfg)) (set (upsert_namespaces w))"
proof -
  obtain r1 w1 where f: "fetchHtml P u w = (r1, w1)" by (cases "fetchHtml P u w")
  note n1 = ns_fetchHtml [OF f]
  show ?thesis
  proof (cases r1)
    case (Inl e)
    with f assms have "w' = w1" by (auto simp: crawl_page_def)
    with n1 show ?thesis by auto
  next
    case (Inr html)
    obtain r2 w2 where s: "scrapeText P u w1 = (r2, w2)" by (cases "scrapeText P u w1")
    note n2 = ns_scrapeText [OF s]
    show ?thesis
    proof (cases r2)
      case (Inl e)
      with f Inr s assms have "w' = w2" by (auto simp: crawl_page_def)
      with n1 n2 show ?thesis by auto
    next
      case body: (Inr body)
      obtain r w3 where i: "ingest_page P cfg u (page_title P cfg html) body (crawled st) w2 = Some (r, w3)"
        using ingest_page_total by blast
      with f Inr s body assms have "w' = (if delayMs cfg \<noteq> 0 then sleep (Num (of_int (delayMs cfg))) w3 else w3)"
        by (auto simp: crawl_page_def)
      then have "upsert_namespaces w' = upsert_namespaces w3" by (simp add: ns_sleep)
      with ns_ingest_page [OF i] n1 n2 show ?thesis by simp
    qed
  qed
qed

lemma clampInt_range:
  "mn \<le> mx \<Longrightarrow> mn \<le> fb \<Longrightarrow> fb \<le> mx \<Longrightarrow> mn \<le> clampInt v mn mx fb \<and> clampInt v mn mx fb \<le> mx"
  by (cases v) (auto simp: clampInt_def)

lemma crawl_inv_start: "crawl_inv cfg (crawl_start u)"
  by (simp add: crawl_inv_def crawl_start_def)


lemma crawl_loop_from_start:
  fixes P :: "'x platform"
  shows "\<exists>st w'. crawl_loop P cfg (crawl_start u) w = Some (st, w') \<and> crawl_inv cfg st \<and>
           set (upsert_namespaces w') \<subseteq> insert (getIndexForNamespace P (namespace cfg)) (set (upsert_namespaces w))"
proof -
  define A where "A = insert (getIndexForNamespace P (namespace cfg)) (set (upsert_namespaces w))"
  define W where "W = (\<lambda>x :: 'x world. set (upsert_namespaces x) \<subseteq> A)"
  have step: "W x'" if "W x" "crawl_page P cfg v d s x = Some (s', x')" for v d s x s' x'
    using ns_crawl_page [OF that(2)] that(1) by (auto simp: W_def A_def)
  have "\<exists>st' w'. crawl_loop P cfg (crawl_start u) w = Some (st', w') \<and> crawl_inv cfg st' \<and> W w' \<and>
          seen (crawl_start u) \<subseteq> seen st'"
  proof (rule crawl_loop_inv)
    show "crawl_inv cfg (crawl_start u)" by (rule crawl_inv_start)
    show "W w" by (auto simp: W_def A_def)
    show "W x'" if "W x" "crawl_page P cfg v d s x = Some (s', x')" for v d s x s' x'
      using that by (rule step)
  qed
  then show ?thesis by (auto simp: W_def A_def)
qed

lemma ingest_crawl_cases:
  fixes P :: "'x platform"
  shows "\<exists>r w'. ingest_crawl P body w = Some (r, w') \<and>
     (r = BadRequest \<or> r = ServerError \<or>
      (\<exists>st. r = Done (crawl_settings body) st \<and> crawl_inv (crawl_settings body) st)) \<and>
     set (upsert_namespaces w') \<subseteq> insert (getIndexForNamespace P (b_namespace body)) (set (upsert_namespaces w))"
proof (cases "\<exists>s. b_startUrl body = Str s \<and> s \<noteq> [] \<and> isHttpUrl P s")
  case False
  then have "ingest_crawl P body w = Some (BadRequest, w)"
    by (cases "b_startUrl body") (auto simp: ingest_crawl_def)
  then show ?thesis by auto
next
  case True
  then obtain s where s: "b_startUrl body = Str s" "s \<noteq> []" "isHttpUrl P s" by blast
  show ?thesis
  proof (cases "cleanUrl P s DEFAULT_STRIP_PARAMS")
    case (Inl e)
    with s have "ingest_crawl P body w = Some (ServerError, w)" by (simp add: ingest_crawl_def)
    then show ?thesis by auto
  next
    case (Inr u)
    obtain st w' where l: "crawl_loop P (crawl_settings body) (crawl_start u) w = Some (st, w')"
      and i: "crawl_inv (crawl_settings body) st"
      and n: "set (upsert_namespaces w') \<subseteq>
              insert (getIndexForNamespace P (namespace (crawl_settings body))) (set (upsert_namespaces w))"
      using crawl_loop_from_start [of P "crawl_settings body" u w] by blast
    from s Inr l have "ingest_crawl P body w = Some (Done (crawl_settings body) st, w')"
      by (simp add: ingest_crawl_def)
    moreover have "namespace (crawl_settings body) = b_namespace body" by (simp add: crawl_settings_def)
    ultimately show ?thesis using i n by auto
  qed
qed

lemma crawl_settings_range:
  "0 \<le> maxDepth (crawl_settings body) \<and> maxDepth (crawl_settings body) \<le> 6 \<and>
   1 \<le> maxPages (crawl_settings body) \<and> maxPages (crawl_settings body) \<le> 1000 \<and>
   0 \<le> delayMs (crawl_settings body) \<and> delayMs (crawl_settings body) \<le> 5000"
  using clampInt_range [of 0 6 1 "case b_maxDepth body of None \<Rightarrow> Finite 1 | Some v \<Rightarrow> v"]
        clampInt_range [of 1 1000 50 "case b_maxPages body of None \<Rightarrow> Finite 50 | Some v \<Rightarrow> v"]
        clampInt_range [of 0 5000 200 "case b_delayMs body of None \<Rightarrow> Finite 200 | Some v \<Rightarrow> v"]
  by (simp add: crawl_settings_def)

text \<open>
  C1. The loop discards, without any call, a task whose address is already seen or whose
  depth exceeds \<open>maxDepth\<close>; every other task has its address added to the seen set before
  its page is processed. The loop ends, and at its end no visited task is deeper than
  \<open>maxDepth\<close>, no address was visited twice, every visited address is in the seen set and
  \<open>crawled \<le> maxPages\<close>. The handler clamps \<open>maxPages\<close> to 1..1000 and \<open>maxDepth\<close> to 0..6
  and answers every request.
\<close>

theorem crawl_loop_bounds:
  fixes P :: "'x platform"
  shows
    "(q st = (u, d) # rest \<and> crawled st < maxPages cfg \<and> (u \<in> seen st \<or> maxDepth cfg < d) \<longrightarrow>
        crawl_loop P cfg st w = crawl_loop P cfg (st\<lparr>q := rest\<rparr>) w) \<and>
     (q st = (u, d) # rest \<and> crawled st < maxPages cfg \<and> u \<notin> seen st \<and> d \<le> maxDepth cfg \<longrightarrow>
        crawl_loop P cfg st w =
          (case crawl_page P cfg u d (st\<lparr>q := rest, seen := insert u (seen st)\<rparr>) w of
             None \<Rightarrow> None
           | Some (st2, w2) \<Rightarrow> crawl_loop P cfg st2 w2)) \<and>
     (0 \<le> maxPages cfg \<longrightarrow>
        (\<exists>st' w'. crawl_loop P cfg (crawl_start u0) w = Some (st', w') \<and>
            list_all (\<lambda>v. fst (snd v) \<le> maxDepth cfg) (visited st') \<and>
            distinct (map fst (visited st')) \<and>
            fst ` set (visited st') \<subseteq> seen st' \<and>
            crawled st' \<le> maxPages cfg)) \<and>
     (\<exists>r w'. ingest_crawl P body w = Some (r, w') \<and>
        (case r of
           Done cfg' st' \<Rightarrow>
             cfg' = crawl_settings body \<and> maxDepth cfg' \<le> 6 \<and> maxPages cfg' \<le> 1000 \<and>
             list_all (\<lambda>v. fst (snd v) \<le> maxDepth cfg') (visited st') \<and>
             distinct (map fst (visited st')) \<and>
             crawled st' \<le> maxPages cfg'
         | _ \<Rightarrow> True))"
proof (intro conjI impI)
  assume "q st = (u, d) # rest \<and> crawled st < maxPages cfg \<and> (u \<in> seen st \<or> maxDepth cfg < d)"
  then show "crawl_loop P cfg st w = crawl_loop P cfg (st\<lparr>q := rest\<rparr>) w"
    by (subst crawl_loop.simps) auto
next
  assume "q st = (u, d) # rest \<and> crawled st < maxPages cfg \<and> u \<notin> seen st \<and> d \<le> maxDepth cfg"
  then show "crawl_loop P cfg st w =
          (case crawl_page P cfg u d (st\<lparr>q := rest, seen := insert u (seen st)\<rparr>) w of
             None \<Rightarrow> None
           | Some (st2, w2) \<Rightarrow> crawl_loop P cfg st2 w2)"
    by (subst crawl_loop.simps) auto
next
  assume p: "0 \<le> maxPages cfg"
  obtain st' w' where "crawl_loop P cfg (crawl_start u0) w = Some (st', w')" "crawl_inv cfg st'"
    using crawl_loop_from_start [of P cfg u0 w] by blast
  with p show "\<exists>st' w'. crawl_loop P cfg (crawl_start u0) w = Some (st', w') \<and>
            list_all (\<lambda>v. fst (snd v) \<le> maxDepth cfg) (visited st') \<and>
            distinct (map fst (visited st')) \<and>
            fst ` set (visited st') \<subseteq> seen st' \<and>
            crawled st' \<le> maxPages cfg"
    by (auto simp: crawl_inv_def)
next
  obtain r w' where r: "ingest_crawl P body w = Some (r, w')"
    and c: "r = BadRequest \<or> r = ServerError \<or>
      (\<exists>st. r = Done (crawl_settings body) st \<and> crawl_inv (crawl_settings body) st)"
    using ingest_crawl_cases [of P body w] by blast
  from c crawl_settings_range [of body]
  have "case r of
           Done cfg' st' \<Rightarrow>
             cfg' = crawl_settings body \<and> maxDepth cfg' \<le> 6 \<and> maxPages cfg' \<le> 1000 \<and>
             list_all (\<lambda>v. fst (snd v) \<le> maxDepth cfg') (visited st') \<and>
             distinct (map fst (visited st')) \<and>
             crawled st' \<le> maxPages cfg'
         | _ \<Rightarrow> True"
    by (auto simp: crawl_inv_def)
  with r show "\<exists>r w'. ingest_crawl P body w = Some (r, w') \<and>
        (case r of
           Done cfg' st' \<Rightarrow>
             cfg' = crawl_settings body \<and> maxDepth cfg' \<le> 6 \<and> maxPages cfg' \<le> 1000 \<and>
             list_all (\<lambda>v. fst (snd v) \<le> maxDepth cfg') (visited st') \<and>
             distinct (map fst (visited st')) \<and>
             crawled st' \<le> maxPages cfg'
         | _ \<Rightarrow> True)"
    by blast
qed


text \<open>
  C3, amended. Every request to the vector store made by one ingestion call carries the
  same namespace. It is the string the caller supplied, if that is not empty; none (the
  default namespace of the index) if the caller supplied the empty string; and when the
  caller supplied no namespace, the server's \<open>PINECONE_NAMESPACE\<close> if that is set and not
  empty, else none. The server derives nothing from the seed address; the web client does,
  by \<open>computeNamespace\<close>, which depends on the host name of the address only, and passes
  the result as the caller's string.
\<close>

theorem ingestion_single_namespace:
  fixes P :: "'x platform"
  shows
    "(\<exists>r w'. ingest_crawl P body w = Some (r, w') \<and>
        set (upsert_namespaces w') \<subseteq>
          insert (getIndexForNamespace P (b_namespace body)) (set (upsert_namespaces w))) \<and>
     (\<forall>r w'. upsertVectors P vs ns w = Some (r, w') \<longrightarrow>
        set (upsert_namespaces w') \<subseteq> insert (getIndexForNamespace P ns) (set (upsert_namespaces w))) \<and>
     getIndexForNamespace P (Some n) = (if n = [] then None else Some n) \<and>
     getIndexForNamespace P None =
       (case PINECONE_NAMESPACE P of None \<Rightarrow> None | Some n \<Rightarrow> if n = [] then None else Some n) \<and>
     (new_URL P a = Some ua \<and> new_URL P b = Some ub \<and> url_hostname ua = url_hostname ub \<longrightarrow>
        computeNamespace P a = computeNamespace P b)"
proof (intro conjI allI impI)
  show "\<exists>r w'. ingest_crawl P body w = Some (r, w') \<and>
        set (upsert_namespaces w') \<subseteq>
          insert (getIndexForNamespace P (b_namespace body)) (set (upsert_namespaces w))"
    using ingest_crawl_cases [of P body w] by blast
next
  fix r w'
  assume "upsertVectors P vs ns w = Some (r, w')"
  then show "set (upsert_namespaces w') \<subseteq> insert (getIndexForNamespace P ns) (set (upsert_namespaces w))"
    by (rule ns_upsertVectors)
next
  show "getIndexForNamespace P (Some n) = (if n = [] then None else Some n)"
    by (simp add: getIndexForNamespace_def)
next
  show "getIndexForNamespace P None =
       (case PINECONE_NAMESPACE P of None \<Rightarrow> None | Some n \<Rightarrow> if n = [] then None else Some n)"
    by (simp add: getIndexForNamespace_def)
next
  assume "new_URL P a = Some ua \<and> new_URL P b = Some ub \<and> url_hostname ua = url_hostname ub"
  then show "computeNamespace P a = computeNamespace P b"
    by (simp add: computeNamespace_def)
qed

section \<open>The examples, evaluated\<close>

lemma js_Cons: "js (c # s) = of_char c # js s" "js [] = []"
  by (simp_all add: js_def)

lemmas url_eval = js_Cons cleanUrl_def clean_URL_def clear_hash_def strip_trailing_spaces_def strip_params_def
  collapse_slashes_def searchParams_def searchParams_delete_def searchParams_update_def set_pathname_def
  url_pathname_def url_href_def url_authority_def serialize_path_def replace_trailing_slashes_def
  endsWith_def startsWith_def DEFAULT_STRIP_PARAMS_def isHttpUrl_def url_protocol_def
  basic_def basic_new_URL_def basic_path_def basic_host_ok_def basic_segments_ok_def is_plain_def is_alpha_def
  is_digit_def is_special_def default_port_def parse_decimal_def basic_parse_query_def basic_serialize_query_def
  form_encode_def hex_digit_def hex_value_def ascii_lower_def Let_def decimal.simps

lemmas text_eval = cleanText_def starts_with_ci_def is_ws_def trim_def

text \<open>
  An address with a fragment, a tracking parameter and two slashes at its end: cleaned
  once it has neither and one slash, and cleaning it again changes nothing.
\<close>

theorem cleanUrl_idempotent_witness:
  "cleanUrl basic (js ''https://example.com/a//?utm_source=x&q=1#top'') DEFAULT_STRIP_PARAMS =
     Inr (js ''https://example.com/a/?q=1'') \<and>
   cleanUrl basic (js ''https://example.com/a/?q=1'') DEFAULT_STRIP_PARAMS =
     Inr (js ''https://example.com/a/?q=1'')"
proof -
  define u where "u = \<lparr>scheme = js ''https'', username = [], password = [], host = Some (js ''example.com''),
     port = None, path = Segments [js ''a'', [], []], query = Some (js ''utm_source=x&q=1''),
     fragment = Some (js ''top'')\<rparr>"
  define u' where "u' = \<lparr>scheme = js ''https'', username = [], password = [], host = Some (js ''example.com''),
     port = None, path = Segments [js ''a'', []], query = Some (js ''q=1''), fragment = None\<rparr>"
  have parse: "new_URL basic (js ''https://example.com/a//?utm_source=x&q=1#top'') = Some u"
    by (simp add: u_def url_eval)
  have seg: "path u = Segments [js ''a'', [], []]" by (simp add: u_def)
  have cl: "clean_URL basic DEFAULT_STRIP_PARAMS u = u'"
    by (simp add: u_def u'_def url_eval)
  have href: "url_href u' = js ''https://example.com/a/?q=1''"
    by (simp add: u'_def url_eval)
  have query_rt: "parse_query basic (serialize_query basic (filter (\<lambda>kv. fst kv \<notin> DEFAULT_STRIP_PARAMS) (searchParams basic u))) =
                   filter (\<lambda>kv. fst kv \<notin> DEFAULT_STRIP_PARAMS) (searchParams basic u)"
    by (simp add: u_def url_eval)
  have path_rt: "serialize_path (Segments (parse_path basic (scheme u) (replace_trailing_slashes (url_pathname u)))) =
                  replace_trailing_slashes (url_pathname u)"
    by (simp add: u_def url_eval)
  have href_rt: "new_URL basic (url_href (clean_URL basic DEFAULT_STRIP_PARAMS u)) =
                 Some (clean_URL basic DEFAULT_STRIP_PARAMS u)"
    unfolding cl href by (simp add: u'_def url_eval)
  from cleanUrl_idempotent [OF parse seg query_rt path_rt href_rt]
  show ?thesis by (simp add: cl href)
qed

text \<open>
  C7 as stated fails for the path: the two slashes at the end of \<open>/docs//\<close> become one.
\<close>

theorem cleanUrl_path_counterexample:
  "cleanUrl basic (js ''http://example.com/docs//'') DEFAULT_STRIP_PARAMS = Inr (js ''http://example.com/docs/'') \<and>
   map_option url_pathname (new_URL basic (js ''http://example.com/docs//'')) = Some (js ''/docs//'') \<and>
   map_option url_pathname (new_URL basic (js ''http://example.com/docs/'')) = Some (js ''/docs/'')"
  by (simp add: url_eval)

text \<open>
  A path without a scheme is rejected by \<open>cleanUrl\<close>; an FTP address is not, but
  \<open>scrapeText\<close> and both handlers refuse it.
\<close>

theorem cleanUrl_throws_iff_unparsable_witness:
  "cleanUrl basic (js ''/docs/page'') DEFAULT_STRIP_PARAMS = Inl TypeError \<and>
   scrapeText basic (js ''ftp://example.com/pub/'') w0 = (Inl InvalidScrapeUrl, w0) \<and>
   scrape_route basic (Str (js ''ftp://example.com/pub/'')) w0 = (Status400, w0) \<and>
   ingest_crawl basic (body0\<lparr>b_startUrl := Str (js ''ftp://example.com/pub/'')\<rparr>) w0 = Some (BadRequest, w0)"
proof -
  have n: "new_URL basic (js ''/docs/page'') = None" by (simp add: url_eval)
  have h: "\<not> isHttpUrl basic (js ''ftp://example.com/pub/'')" by (simp add: url_eval)
  have b: "b_startUrl (body0\<lparr>b_startUrl := Str (js ''ftp://example.com/pub/'')\<rparr>) = Str (js ''ftp://example.com/pub/'')"
    by simp
  from cleanUrl_throws_iff_unparsable [of basic "js ''/docs/page''" DEFAULT_STRIP_PARAMS] n
  have 1: "cleanUrl basic (js ''/docs/page'') DEFAULT_STRIP_PARAMS = Inl TypeError" by blast
  from cleanUrl_throws_iff_unparsable [of basic "js ''ftp://example.com/pub/''" DEFAULT_STRIP_PARAMS w0
      "body0\<lparr>b_startUrl := Str (js ''ftp://example.com/pub/'')\<rparr>"] h b
  have 2: "scrapeText basic (js ''ftp://example.com/pub/'') w0 = (Inl InvalidScrapeUrl, w0) \<and>
   scrape_route basic (Str (js ''ftp://example.com/pub/'')) w0 = (Status400, w0) \<and>
   ingest_crawl basic (body0\<lparr>b_startUrl := Str (js ''ftp://example.com/pub/'')\<rparr>) w0 = Some (BadRequest, w0)"
    by blast
  from 1 2 show ?thesis by blast
qed

text \<open>
  C8 as stated fails: \<open>cleanUrl\<close> returns the canonical form of an FTP address, which is
  not an HTTP(S) address.
\<close>

theorem cleanUrl_accepts_ftp_counterexample:
  "cleanUrl basic (js ''ftp://example.com/pub/'') DEFAULT_STRIP_PARAMS = Inr (js ''ftp://example.com/pub/'') \<and>
   \<not> isHttpUrl basic (js ''ftp://example.com/pub/'')"
  by (simp add: url_eval)

lemmas scrape_eval = scrapeText_def fetchViaHttp_def fetchViaBrowser_def fetchHtml_def perform_def
  basic_fetch_def basic_render_def site_def home_html_def w0_def

lemma empty_page_scrape:
  "scrapeText basic (js ''http://example.com/empty'') w0 =
     (Inr [], \<lparr>ext = 2, trace = [HttpGet (js ''http://example.com/empty''),
                                  BrowserLoad (js ''http://example.com/empty'')]\<rparr>)"
  by (simp add: scrape_eval url_eval text_eval)

text \<open>
  A page that is empty: the fast path gives the empty text, the fallback gives it again,
  \<open>scrapeText\<close> returns it, and the handler answers 422.
\<close>

theorem scrapeText_result_witness:
  "scrapeText basic (js ''http://example.com/empty'') w0 =
     (Inr [], \<lparr>ext = 2, trace = [HttpGet (js ''http://example.com/empty''),
                                  BrowserLoad (js ''http://example.com/empty'')]\<rparr>) \<and>
   scrape_route basic (Str (js ''http://example.com/empty'')) w0 =
     (NoContent422 (js ''http://example.com/empty''),
      \<lparr>ext = 2, trace = [HttpGet (js ''http://example.com/empty''),
                          BrowserLoad (js ''http://example.com/empty'')]\<rparr>)"
proof -
  let ?u = "js ''http://example.com/empty''"
  let ?w1 = "\<lparr>ext = 1 :: nat, trace = [HttpGet ?u]\<rparr>"
  let ?w2 = "\<lparr>ext = 2 :: nat, trace = [HttpGet ?u, BrowserLoad ?u]\<rparr>"
  have ne: "?u \<noteq> []" by (simp add: js_Cons)
  have h: "isHttpUrl basic ?u" by (simp add: url_eval)
  have c: "cleanUrl basic ?u DEFAULT_STRIP_PARAMS = Inr ?u" by (simp add: url_eval)
  have f: "fetchViaHttp basic ?u w0 = (Inr [], ?w1)" by (simp add: scrape_eval url_eval text_eval)
  have r: "render_page basic ?u (ext ?w1) = (Inr \<lparr>innerText = [], content = Inr []\<rparr>, 2)"
    by (simp add: scrape_eval url_eval text_eval)
  note T = scrapeText_result [where P = basic and u = ?u and v = ?u and w = w0 and ?w1.0 = ?w1
      and r = "Inr []" and page = "\<lparr>innerText = [], content = Inr []\<rparr>" and ?x2.0 = 2 and html = "[]"
      and s = ?u and t = "[]"]
  have 1: "scrapeText basic ?u w0 = fetchViaBrowser basic ?u ?w1"
    using T [THEN conjunct2, THEN conjunct1] ne h c f by simp
  have 2: "fetchViaBrowser basic ?u ?w1 = (Inr (cleanText []), ?w2)"
    using T [THEN conjunct2, THEN conjunct2, THEN conjunct1] r by (simp add: text_eval)
  have 3: "scrapeText basic ?u w0 = (Inr [], ?w2)" using 1 2 by (simp add: text_eval)
  note T' = scrapeText_result [where P = basic and u = ?u and w = w0 and ?w1.0 = ?w2 and s = ?u and t = "[]"]
  have 4: "scrape_route basic (Str ?u) w0 = (NoContent422 ?u, ?w2)"
    using T' [THEN conjunct2, THEN conjunct2, THEN conjunct2] ne h c 3 by (simp add: text_eval)
  from 3 4 show ?thesis by simp
qed

text \<open>
  C4 as stated fails: for the empty page \<open>scrapeText\<close> returns the empty string and throws
  nothing.
\<close>

theorem scrapeText_empty_counterexample:
  "fst (scrapeText basic (js ''http://example.com/empty'') w0) = Inr []"
  by (simp add: empty_page_scrape)






lemmas crawl_eval = crawl_page_def discoverLinks_def link_of_def add_link_def url_origin_def
  basic_new_URL_base_def page_title_def enqueue_def ingest_page_def chunkText_def chunkText_loop.simps
  js_slice_def embedTexts_def build_vectors_def show_int_def upsertVectors_def chunk_def chunk_loop.simps
  withRetry_def withRetry_loop.simps getIndexForNamespace_def start_url_def cfg0_def crawl_start_def

lemma home_page:
  "crawl_page basic cfg0 start_url 0 ((crawl_start start_url)\<lparr>q := [], seen := {start_url}\<rparr>) w0 =
     Some (home_state, home_world)"
  by (simp add: crawl_eval scrape_eval url_eval text_eval home_text_def home_vector_def sleep_def
        home_state_def home_world_def)

lemma home_fetch:
  "fetchHtml basic start_url w0 = (Inr home_html, \<lparr>ext = 1, trace = [HttpGet start_url]\<rparr>)"
  by (simp add: scrape_eval start_url_def url_eval)

lemma home_scrape:
  "scrapeText basic start_url \<lparr>ext = 1, trace = [HttpGet start_url]\<rparr> = (Inr home_text, scraped_world)"
  by (simp add: scrape_eval start_url_def home_text_def scraped_world_def url_eval text_eval)

lemma one_page_crawl: "crawl_loop basic cfg0 (crawl_start start_url) w0 = Some (home_state, home_world)"
proof -
  have "crawl_loop basic cfg0 (crawl_start start_url) w0 = crawl_loop basic cfg0 home_state home_world"
    using home_page
    by (intro crawl_loop_visit [where u = start_url and d = 0 and rest = "[]"])
       (simp_all add: crawl_start_def cfg0_def)
  also have "\<dots> = Some (home_state, home_world)"
    by (rule crawl_loop_exit) (simp add: home_state_def cfg0_def)
  finally show ?thesis .
qed

text \<open>
  A crawl with \<open>maxDepth = 0\<close> and \<open>maxPages = 1\<close>: the start page is visited, its two new
  links are queued at depth 1, and the loop stops with \<open>crawled = 1\<close>. A task whose
  address is already seen is dropped without a call.
\<close>

theorem crawl_loop_bounds_witness:
  "crawl_loop basic cfg0 (crawl_start start_url) w0 = Some (home_state, home_world) \<and>
   crawled home_state \<le> maxPages cfg0 \<and>
   crawl_loop basic (cfg0\<lparr>maxPages := 5\<rparr>) (home_state\<lparr>q := [(start_url, 1)]\<rparr>) home_world =
     Some (home_state\<lparr>q := []\<rparr>, home_world)"
proof -
  note T = crawl_loop_bounds [where P = basic and cfg = cfg0 and st = "crawl_start start_url"
      and u = start_url and d = 0 and rest = "[]" and w = w0 and ?u0.0 = start_url and body = body0]
  have hyp: "q (crawl_start start_url) = (start_url, 0) # [] \<and> crawled (crawl_start start_url) < maxPages cfg0 \<and>
        start_url \<notin> seen (crawl_start start_url) \<and> 0 \<le> maxDepth cfg0"
    by (simp add: crawl_start_def cfg0_def)
  have arg: "(crawl_start start_url)\<lparr>q := [], seen := insert start_url (seen (crawl_start start_url))\<rparr> =
        (crawl_start start_url)\<lparr>q := [], seen := {start_url}\<rparr>"
    by (simp add: crawl_start_def)
  from T [THEN conjunct2, THEN conjunct1] hyp
  have "crawl_loop basic cfg0 (crawl_start start_url) w0 = crawl_loop basic cfg0 home_state home_world"
    by (simp add: arg home_page)
  also have "\<dots> = Some (home_state, home_world)"
    by (rule crawl_loop_exit) (simp add: home_state_def cfg0_def)
  finally have 1: "crawl_loop basic cfg0 (crawl_start start_url) w0 = Some (home_state, home_world)" .
  have p: "0 \<le> maxPages cfg0" by (simp add: cfg0_def)
  from T [THEN conjunct2, THEN conjunct2, THEN conjunct1] p 1
  have 2: "crawled home_state \<le> maxPages cfg0" by auto
  note S = crawl_loop_bounds [where P = basic and cfg = "cfg0\<lparr>maxPages := 5\<rparr>"
      and st = "home_state\<lparr>q := [(start_url, 1)]\<rparr>" and u = start_url and d = 1 and rest = "[]" and w = home_world]
  have "crawl_loop basic (cfg0\<lparr>maxPages := 5\<rparr>) (home_state\<lparr>q := [(start_url, 1)]\<rparr>) home_world =
        crawl_loop basic (cfg0\<lparr>maxPages := 5\<rparr>) (home_state\<lparr>q := [(start_url, 1)], q := []\<rparr>) home_world"
    using S [THEN conjunct1] by (simp add: home_state_def cfg0_def)
  also have "\<dots> = Some (home_state\<lparr>q := []\<rparr>, home_world)"
    using crawl_loop_exit [of "home_state\<lparr>q := []\<rparr>" "cfg0\<lparr>maxPages := 5\<rparr>" basic home_world] by simp
  finally have 3: "crawl_loop basic (cfg0\<lparr>maxPages := 5\<rparr>) (home_state\<lparr>q := [(start_url, 1)]\<rparr>) home_world =
     Some (home_state\<lparr>q := []\<rparr>, home_world)" .
  from 1 2 3 show ?thesis by blast
qed


text \<open>
  A request without a namespace on a server without a default writes to no namespace; a
  caller's namespace is the one every batch is written to.
\<close>

theorem ingestion_single_namespace_witness:
  "(\<exists>r w'. ingest_crawl basic body0 w0 = Some (r, w') \<and> set (upsert_namespaces w') \<subseteq> {None}) \<and>
   set (upsert_namespaces \<lparr>ext = 1 :: nat, trace = [UpsertCall (Some (js ''nextjs'')) [vec_n 0]]\<rparr>)
     \<subseteq> {Some (js ''nextjs'')} \<and>
   getIndexForNamespace basic (Some []) = None \<and>
   computeNamespace basic start_url = computeNamespace basic (js ''http://example.com/docs/a'')"
proof -
  define ua where "ua = \<lparr>scheme = js ''http'', username = [], password = [], host = Some (js ''example.com''),
     port = None, path = Segments [js ''docs''], query = None, fragment = None\<rparr>"
  define ub where "ub = \<lparr>scheme = js ''http'', username = [], password = [], host = Some (js ''example.com''),
     port = None, path = Segments [js ''docs'', js ''a''], query = None, fragment = None\<rparr>"
  have pa: "new_URL basic start_url = Some ua" by (simp add: ua_def start_url_def url_eval)
  have pb: "new_URL basic (js ''http://example.com/docs/a'') = Some ub" by (simp add: ub_def url_eval)
  have hh: "url_hostname ua = url_hostname ub" by (simp add: ua_def ub_def url_hostname_def)
  note T = ingestion_single_namespace [where P = basic and body = body0 and w = w0 and vs = "[vec_n 0]"
      and ns = "Some (js ''nextjs'')" and n = "[]" and a = start_url and b = "js ''http://example.com/docs/a''"
      and ua = ua and ub = ub]
  have g: "getIndexForNamespace basic (b_namespace body0) = None"
    by (simp add: getIndexForNamespace_def body0_def basic_def)
  have e: "upsert_namespaces w0 = []" by (simp add: upsert_namespaces_def w0_def)
  from T [THEN conjunct1] have 1: "\<exists>r w'. ingest_crawl basic body0 w0 = Some (r, w') \<and> set (upsert_namespaces w') \<subseteq> {None}"
    by (simp add: g e)
  have u: "upsertVectors basic [vec_n 0] (Some (js ''nextjs'')) w0 =
           Some (Inr 1, \<lparr>ext = 1, trace = [UpsertCall (Some (js ''nextjs'')) [vec_n 0]]\<rparr>)"
    by (simp add: upsertVectors_def chunk_def chunk_loop.simps js_slice_def withRetry_def withRetry_loop.simps
          perform_def getIndexForNamespace_def basic_def w0_def vec_n_def js_Cons decimal.simps)
  have g2: "getIndexForNamespace basic (Some (js ''nextjs'')) = Some (js ''nextjs'')"
    by (simp add: getIndexForNamespace_def js_Cons)
  from T [THEN conjunct2, THEN conjunct1, rule_format, OF u]
  have 2: "set (upsert_namespaces \<lparr>ext = 1 :: nat, trace = [UpsertCall (Some (js ''nextjs'')) [vec_n 0]]\<rparr>)
     \<subseteq> {Some (js ''nextjs'')}"
    by (simp add: g2 e)
  from T [THEN conjunct2, THEN conjunct2, THEN conjunct1]
  have 3: "getIndexForNamespace basic (Some []) = None" by simp
  from T [THEN conjunct2, THEN conjunct2, THEN conjunct2, THEN conjunct2] pa pb hh
  have 4: "computeNamespace basic start_url = computeNamespace basic (js ''http://example.com/docs/a'')"
    by blast
  from 1 2 3 4 show ?thesis by blast
qed

text \<open>
  C3 as stated fails: a crawl of \<open>http://example.com/docs\<close> requested without a namespace
  writes its vectors to no namespace, not to one named after the host (which the web
  client would call \<open>example\<close>).
\<close>

theorem ingestion_namespace_counterexample:
  "namespaces_written (ingest_crawl basic body0 w0) = Some [None] \<and>
   computeNamespace basic start_url = js ''example''"
proof -
  have s: "crawl_settings body0 = cfg0"
    by (simp add: crawl_settings_def body0_def cfg0_def clampInt_def startsWith_def js_Cons)
  have h: "isHttpUrl basic start_url" "start_url \<noteq> []"
    "cleanUrl basic start_url DEFAULT_STRIP_PARAMS = Inr start_url"
    by (simp_all add: start_url_def url_eval)
  have b: "b_startUrl body0 = Str start_url" by (simp add: body0_def)
  have "ingest_crawl basic body0 w0 = Some (Done cfg0 home_state, home_world)"
    using h one_page_crawl by (simp add: ingest_crawl_def s b)
  then have 1: "namespaces_written (ingest_crawl basic body0 w0) = Some [None]"
    by (simp add: namespaces_written_def upsert_namespaces_def home_world_def)
  have 2: "computeNamespace basic start_url = js ''example''"
    by (simp add: computeNamespace_def url_hostname_def start_url_def url_eval)
  from 1 2 show ?thesis by blast
qed

end
